theory Spec2Isabelle
  imports Main "HOL-Library.AList" "HOL-Library.Sublist"
begin

section \<open>The skill packager (scripts/package\_skill.py)\<close>

text \<open>
  The script resolves two paths, checks that the source directory holds an entry
  \<^verbatim>\<open>SKILL.md\<close>, creates the output directory, and writes a zip archive of the visible
  files of the source directory. Everything it does is an effect on the file system and on
  the two output streams, so the model passes a \<open>world\<close> (file system, working directory,
  standard output, standard error) through every operation, and every exception of the
  source is a value of the type \<open>exn\<close>.

  Scope of the model: a POSIX file system of directories and regular files (no symbolic
  links, no permissions, no quota), one process, path strings without NUL. The zip format
  is the \<^verbatim>\<open>zipfile\<close> module's business: an archive on disk is the list of its entries
  (name and content, in the order written), and the number of bytes the module needs for
  it is the parameter \<open>zsize\<close>.
\<close>

subsection \<open>Paths and their strings\<close>

text \<open>An absolute path, as \<^verbatim>\<open>Path.resolve()\<close> returns it: its components below the root.\<close>

type_synonym path = "string list"

text \<open>\<^verbatim>\<open>s.startswith(".")\<close>\<close>

definition startswith_dot :: "string \<Rightarrow> bool" where
  "startswith_dot s = (case s of [] \<Rightarrow> False | c # _ \<Rightarrow> c = CHR ''.'')"

text \<open>The components of a path string: the pieces between the slashes.\<close>

fun split_sep :: "string \<Rightarrow> string \<Rightarrow> string list" where
  "split_sep cur [] = [cur]"
| "split_sep cur (c # cs) =
     (if c = CHR ''/'' then cur # split_sep [] cs else split_sep (cur @ [c]) cs)"

definition is_absolute :: "string \<Rightarrow> bool" where
  "is_absolute s = (case s of [] \<Rightarrow> False | c # _ \<Rightarrow> c = CHR ''/'')"

text \<open>
  One component of a path being resolved: empty components and \<^verbatim>\<open>.\<close> are dropped,
  \<^verbatim>\<open>..\<close> steps to the parent (the root is its own parent).
\<close>

definition resolve_part :: "path \<Rightarrow> string \<Rightarrow> path" where
  "resolve_part p x =
     (if x = [] \<or> x = ''.'' then p else if x = ''..'' then butlast p else p @ [x])"

text \<open>\<^verbatim>\<open>Path(s).resolve()\<close> in the working directory \<open>wd\<close>.\<close>

definition resolve :: "path \<Rightarrow> string \<Rightarrow> path" where
  "resolve wd s = foldl resolve_part (if is_absolute s then [] else wd) (split_sep [] s)"

text \<open>\<^verbatim>\<open>Path.name\<close>: the final component, empty for the root.\<close>

definition path_name :: "path \<Rightarrow> string" where
  "path_name p = (if p = [] then [] else last p)"

text \<open>\<^verbatim>\<open>Path.parent\<close>: the root is its own parent.\<close>

definition parent :: "path \<Rightarrow> path" where
  "parent p = butlast p"

text \<open>\<^verbatim>\<open>str\<close> of an absolute path.\<close>

definition str_path :: "path \<Rightarrow> string" where
  "str_path p = (if p = [] then ''/'' else concat (map (\<lambda>x. CHR ''/'' # x) p))"

text \<open>\<^verbatim>\<open>str\<close> of a relative path: the components joined by slashes, \<^verbatim>\<open>.\<close> when there is none.\<close>

fun str_rel :: "path \<Rightarrow> string" where
  "str_rel [] = ''.''"
| "str_rel [x] = x"
| "str_rel (x # y # p) = x @ ''/'' @ str_rel (y # p)"

text \<open>Decimal digits of a number, as an f-string prints an \<^verbatim>\<open>int\<close>.\<close>

function show_nat :: "nat \<Rightarrow> string" where
  "show_nat n =
     (if n < 10 then [''0123456789'' ! n]
      else show_nat (n div 10) @ [''0123456789'' ! (n mod 10)])"
  by pat_completeness auto
termination
  by (relation "measure id") auto

declare show_nat.simps [simp del]

subsection \<open>Exceptions\<close>

datatype exn =
    SystemExit nat
  | FileExistsError
  | NotADirectoryError
  | IsADirectoryError
  | FileNotFoundError
  | ValueError
  | IndexError

text \<open>
  The status the interpreter ends the process with: 0 after a normal end, the argument of
  \<^verbatim>\<open>sys.exit\<close>, and 1 after any other uncaught exception.
\<close>

fun exit_status :: "exn + 'a \<Rightarrow> nat" where
  "exit_status (Inr _) = 0"
| "exit_status (Inl (SystemExit n)) = n"
| "exit_status (Inl _) = 1"

text \<open>
  \<^verbatim>\<open>PurePath.relative_to\<close>: the path below \<open>base\<close>, and \<^verbatim>\<open>ValueError\<close> when the
  path is not below it.
\<close>

definition relative_to :: "path \<Rightarrow> path \<Rightarrow> exn + path" where
  "relative_to p base = (if prefix base p then Inr (drop (length base) p) else Inl ValueError)"

subsection \<open>The file system\<close>

text \<open>
  A regular file holds raw data or an archive: \<open>Zip closed entries\<close> is what the
  \<^verbatim>\<open>zipfile\<close> module has put on disk for these entries, \<open>closed\<close> telling whether the
  archive has been closed (its directory written) or is still being written.
\<close>

datatype content = Data string | Zip bool "(string \<times> content) list"

type_synonym entries = "(string \<times> content) list"

text \<open>A directory lists its entries in the order \<^verbatim>\<open>os.scandir\<close> gives them.\<close>

datatype node = File content | Dir "(string \<times> node) list"

record world =
  fs :: node
  cwd :: path
  stdout :: "string list"
  stderr :: "string list"

fun lookup :: "node \<Rightarrow> path \<Rightarrow> node option" where
  "lookup n [] = Some n"
| "lookup (File c) (x # p) = None"
| "lookup (Dir es) (x # p) = (case map_of es x of None \<Rightarrow> None | Some n \<Rightarrow> lookup n p)"

text \<open>\<^verbatim>\<open>Path.exists()\<close>, \<^verbatim>\<open>Path.is_dir()\<close>, \<^verbatim>\<open>Path.is_file()\<close>\<close>

definition path_exists :: "node \<Rightarrow> path \<Rightarrow> bool" where
  "path_exists n p = (lookup n p \<noteq> None)"

definition is_dir :: "node \<Rightarrow> path \<Rightarrow> bool" where
  "is_dir n p = (case lookup n p of Some (Dir _) \<Rightarrow> True | _ \<Rightarrow> False)"

definition is_file :: "node \<Rightarrow> path \<Rightarrow> bool" where
  "is_file n p = (case lookup n p of Some (File _) \<Rightarrow> True | _ \<Rightarrow> False)"

text \<open>What \<^verbatim>\<open>stat\<close> sees at a path: a regular file with its content, or a directory.\<close>

datatype stat = IsFile content | IsDir

definition stat_at :: "node \<Rightarrow> path \<Rightarrow> stat option" where
  "stat_at n p =
     (case lookup n p of None \<Rightarrow> None | Some (File c) \<Rightarrow> Some (IsFile c) | Some (Dir _) \<Rightarrow> Some IsDir)"

text \<open>A chain of new, empty directories.\<close>

fun new_dirs :: "path \<Rightarrow> node" where
  "new_dirs [] = Dir []"
| "new_dirs (x # p) = Dir [(x, new_dirs p)]"

text \<open>
  \<^verbatim>\<open>Path.mkdir(parents=True, exist_ok=True)\<close>, from the node the path starts at: an
  existing directory is left as it is, missing directories are created, and a regular
  file on the way raises (\<^verbatim>\<open>FileExistsError\<close> at the path itself,
  \<^verbatim>\<open>NotADirectoryError\<close> above it) before anything is created.
\<close>

fun mkdir_parents :: "node \<Rightarrow> path \<Rightarrow> exn + node" where
  "mkdir_parents (Dir es) [] = Inr (Dir es)"
| "mkdir_parents (File c) [] = Inl FileExistsError"
| "mkdir_parents (File c) (x # p) = Inl NotADirectoryError"
| "mkdir_parents (Dir es) (x # p) =
     (case map_of es x of
        None \<Rightarrow> Inr (Dir (es @ [(x, new_dirs p)]))
      | Some n \<Rightarrow>
          (case mkdir_parents n p of
             Inl e \<Rightarrow> Inl e
           | Inr n' \<Rightarrow> Inr (Dir (AList.update x n' es))))"

text \<open>
  Opening a path for writing (\<^verbatim>\<open>open(path, "w+b")\<close>) and leaving the content \<open>c\<close>
  there: a regular file is replaced, a missing file is created in its directory, a
  directory at the path raises \<^verbatim>\<open>IsADirectoryError\<close>.
\<close>

fun write_file :: "node \<Rightarrow> path \<Rightarrow> content \<Rightarrow> exn + node" where
  "write_file (File _) [] c = Inr (File c)"
| "write_file (Dir es) [] c = Inl IsADirectoryError"
| "write_file (File _) (x # p) c = Inl NotADirectoryError"
| "write_file (Dir es) (x # p) c =
     (case map_of es x of
        None \<Rightarrow> (if p = [] then Inr (Dir (es @ [(x, File c)])) else Inl FileNotFoundError)
      | Some n \<Rightarrow>
          (case write_file n p c of
             Inl e \<Rightarrow> Inl e
           | Inr n' \<Rightarrow> Inr (Dir (AList.update x n' es))))"

text \<open>
  \<^verbatim>\<open>Path.stat().st_size\<close>: raw data has its length, an archive what the zip module
  wrote. The size of a directory is the file system's choice; the program never asks for
  one, and the model answers 0.
\<close>

definition st_size :: "(entries \<Rightarrow> nat) \<Rightarrow> node \<Rightarrow> path \<Rightarrow> exn + nat" where
  "st_size zsize n p =
     (case lookup n p of
        None \<Rightarrow> Inl FileNotFoundError
      | Some (File (Data d)) \<Rightarrow> Inr (length d)
      | Some (File (Zip _ es)) \<Rightarrow> Inr (zsize es)
      | Some (Dir _) \<Rightarrow> Inr 0)"

text \<open>
  Names a directory can hold: not empty, no slash, neither \<^verbatim>\<open>.\<close> nor \<^verbatim>\<open>..\<close>.
\<close>

definition valid_name :: "string \<Rightarrow> bool" where
  "valid_name x = (x \<noteq> [] \<and> CHR ''/'' \<notin> set x \<and> x \<noteq> ''.'' \<and> x \<noteq> ''..'')"

text \<open>
  A well-formed tree: every directory lists valid names, each of them once.
\<close>

fun wf_node :: "node \<Rightarrow> bool" and wf_listing :: "(string \<times> node) list \<Rightarrow> bool" where
  "wf_node (File c) = True"
| "wf_node (Dir es) = (distinct (map fst es) \<and> wf_listing es)"
| "wf_listing [] = True"
| "wf_listing ((x, n) # es) = (valid_name x \<and> wf_node n \<and> wf_listing es)"

text \<open>A path below the source directory is visible when no component starts with a dot.\<close>

definition visible :: "path \<Rightarrow> bool" where
  "visible p = list_all (\<lambda>x. \<not> startswith_dot x) p"

subsection \<open>Writing the archive\<close>

text \<open>
  \<^verbatim>\<open>zf.write(file_path, arcname)\<close> appends an entry holding what the file holds at that
  moment. Between the opening of the archive and its close the program changes nothing
  on disk but the archive file, so a file's content is the one found in the tree being
  walked, except for the archive file itself, which holds the archive written so far.
\<close>

definition zf_write :: "path \<Rightarrow> path \<Rightarrow> content \<Rightarrow> string \<Rightarrow> entries \<Rightarrow> entries" where
  "zf_write zpath file_path c arcname zf =
     zf @ [(arcname, if file_path = zpath then Zip False zf else c)]"

text \<open>
  The inner loop \<^verbatim>\<open>for file in files\<close> over the listing of the directory \<open>root\<close>:
  \<open>zpath\<close> is the archive's own path, \<open>base\<close> the parent of the source path. The result
  is the exception raised, if any, and the entries written.
\<close>

fun write_files ::
  "path \<Rightarrow> path \<Rightarrow> path \<Rightarrow> (string \<times> node) list \<Rightarrow> entries \<Rightarrow> exn option \<times> entries" where
  "write_files zpath base root [] zf = (None, zf)"
| "write_files zpath base root ((file, Dir _) # es) zf = write_files zpath base root es zf"
| "write_files zpath base root ((file, File c) # es) zf =
     (if startswith_dot file then write_files zpath base root es zf
      else
        (case relative_to (root @ [file]) base of
           Inl e \<Rightarrow> (Some e, zf)
         | Inr rel \<Rightarrow>
             write_files zpath base root es (zf_write zpath (root @ [file]) c (str_rel rel) zf)))"

text \<open>
  \<^verbatim>\<open>os.walk\<close>, top down, with the loop body run at each directory: the files of the
  directory are written first, then each subdirectory left in \<^verbatim>\<open>dirs\<close> is walked, in
  listing order. A subdirectory whose name starts with a dot was removed from
  \<^verbatim>\<open>dirs\<close> by the body and is not entered. A path that is no directory yields nothing
  (\<^verbatim>\<open>os.walk\<close> ignores the error of listing it).
\<close>

fun os_walk :: "path \<Rightarrow> path \<Rightarrow> path \<Rightarrow> node \<Rightarrow> entries \<Rightarrow> exn option \<times> entries"
  and walk_dirs ::
    "path \<Rightarrow> path \<Rightarrow> path \<Rightarrow> (string \<times> node) list \<Rightarrow> entries \<Rightarrow> exn option \<times> entries" where
  "os_walk zpath base root (File c) zf = (None, zf)"
| "os_walk zpath base root (Dir es) zf =
     (case write_files zpath base root es zf of
        (Some e, zf') \<Rightarrow> (Some e, zf')
      | (None, zf') \<Rightarrow> walk_dirs zpath base root es zf')"
| "walk_dirs zpath base root [] zf = (None, zf)"
| "walk_dirs zpath base root ((d, File c) # es) zf = walk_dirs zpath base root es zf"
| "walk_dirs zpath base root ((d, Dir sub) # es) zf =
     (if startswith_dot d then walk_dirs zpath base root es zf
      else
        (case os_walk zpath base (root @ [d]) (Dir sub) zf of
           (Some e, zf') \<Rightarrow> (Some e, zf')
         | (None, zf') \<Rightarrow> walk_dirs zpath base root es zf'))"

text \<open>
  The loop \<^verbatim>\<open>for root, dirs, files in os.walk(skill_path)\<close> on the file system as it
  stands once the archive file is open, starting from an empty archive.
\<close>

definition walk_skill :: "node \<Rightarrow> path \<Rightarrow> path \<Rightarrow> exn option \<times> entries" where
  "walk_skill n output_file skill_path =
     (case lookup n skill_path of
        None \<Rightarrow> (None, [])
      | Some tree \<Rightarrow> os_walk output_file (parent skill_path) skill_path tree [])"

subsection \<open>The packager and the command line\<close>

text \<open>
  \<^verbatim>\<open>package_skill(skill_path, output_dir)\<close>. The \<^verbatim>\<open>with\<close> block closes the archive
  on every way out, also when the walk raises.
\<close>

definition package_skill ::
  "(entries \<Rightarrow> nat) \<Rightarrow> string \<Rightarrow> string \<Rightarrow> world \<Rightarrow> (exn + string) \<times> world" where
  "package_skill zsize skill_path_arg output_dir_arg w =
     (let skill_path = resolve (cwd w) skill_path_arg;
          output_dir = resolve (cwd w) output_dir_arg
      in
      if \<not> path_exists (fs w) (skill_path @ [''SKILL.md'']) then
        (Inl (SystemExit 1),
         w\<lparr>stderr := stderr w @ [''Error: '' @ str_path skill_path @ ''/SKILL.md not found'']\<rparr>)
      else
        let skill_name = path_name skill_path in
        (case mkdir_parents (fs w) output_dir of
           Inl e \<Rightarrow> (Inl e, w)
         | Inr fs1 \<Rightarrow>
             let output_file = output_dir @ [skill_name @ ''.skill''] in
             (case write_file fs1 output_file (Zip False []) of
                Inl e \<Rightarrow> (Inl e, w\<lparr>fs := fs1\<rparr>)
              | Inr fs2 \<Rightarrow>
                  (case walk_skill fs2 output_file skill_path of
                     (raised, zf) \<Rightarrow>
                       (case write_file fs2 output_file (Zip True zf) of
                          Inl e \<Rightarrow> (Inl e, w\<lparr>fs := fs2\<rparr>)
                        | Inr fs3 \<Rightarrow>
                            (case raised of
                               Some e \<Rightarrow> (Inl e, w\<lparr>fs := fs3\<rparr>)
                             | None \<Rightarrow>
                                 (case st_size zsize fs3 output_file of
                                    Inl e \<Rightarrow> (Inl e, w\<lparr>fs := fs3\<rparr>)
                                  | Inr n \<Rightarrow>
                                      (Inr (str_path output_file),
                                       w\<lparr>fs := fs3,
                                         stdout := stdout w @
                                           [''Packaged: '' @ str_path output_file @ '' ('' @
                                            show_nat n @ '' bytes)'']\<rparr>))))))))"

text \<open>
  The script's entry point, \<open>argv\<close> being \<^verbatim>\<open>sys.argv\<close> (the program's name first).
\<close>

definition main :: "(entries \<Rightarrow> nat) \<Rightarrow> string list \<Rightarrow> world \<Rightarrow> (exn + unit) \<times> world" where
  "main zsize argv w =
     (if length argv < 2 then
        (case argv of
           [] \<Rightarrow> (Inl IndexError, w)
         | prog # _ \<Rightarrow>
             (Inl (SystemExit 1),
              w\<lparr>stderr := stderr w @ [''Usage: '' @ prog @ '' <skill-path> [output-dir]'']\<rparr>))
      else
        let skill = argv ! 1;
            out = (if length argv > 2 then argv ! 2 else ''dist'')
        in (case package_skill zsize skill out w of
              (Inl e, w') \<Rightarrow> (Inl e, w')
            | (Inr _, w') \<Rightarrow> (Inr (), w')))"

text \<open>
  The path of the archive: the resolved output directory joined with the name of the
  resolved source path and the extension \<^verbatim>\<open>.skill\<close>.
\<close>

definition archive_path :: "world \<Rightarrow> string \<Rightarrow> string \<Rightarrow> path" where
  "archive_path w skill out =
     resolve (cwd w) out @ [path_name (resolve (cwd w) skill) @ ''.skill'']"

text \<open>The entries of the closed archive found at a path, if there is one.\<close>

definition archive_at :: "node \<Rightarrow> path \<Rightarrow> entries option" where
  "archive_at n p =
     (case lookup n p of Some (File (Zip True es)) \<Rightarrow> Some es | _ \<Rightarrow> None)"

text \<open>
  The name an archive entry gets for the file at \<open>p\<close> below the source path: the
  file's path relative to the parent of the source path.
\<close>

definition arcname :: "path \<Rightarrow> path \<Rightarrow> string" where
  "arcname skill_path p = str_rel (drop (length (parent skill_path)) (skill_path @ p))"

text \<open>
  What an entry may hold for a file whose stored content is \<open>c\<close>: that content, or,
  for the archive file itself, an archive still being written.
\<close>

definition read_ok :: "path \<Rightarrow> path \<Rightarrow> content \<Rightarrow> content \<Rightarrow> bool" where
  "read_ok zpath file_path c c' =
     (if file_path = zpath then (case c' of Zip False _ \<Rightarrow> True | _ \<Rightarrow> False) else c' = c)"

text \<open>
  A well-formed world: a well-formed tree with a directory at its root, in which the
  working directory exists.
\<close>

definition wf_world :: "world \<Rightarrow> bool" where
  "wf_world w = (wf_node (fs w) \<and> is_dir (fs w) (cwd w))"

subsection \<open>Sample worlds\<close>

text \<open>
  Concrete inputs on which the theorems below are run. Archive sizes in them follow
  \<open>sample_zsize\<close> (any function would do: the size is the zip module's choice).
\<close>

definition sample_zsize :: "entries \<Rightarrow> nat" where
  "sample_zsize es = 22 + 100 * length es"

text \<open>
  The tree of the spec's example, seen from the working directory \<^verbatim>\<open>/work\<close>:
  \<^verbatim>\<open>skills/demo\<close> holds \<^verbatim>\<open>SKILL.md\<close> and \<^verbatim>\<open>assets/logo.png\<close>.
\<close>

definition demo_skill :: node where
  "demo_skill =
     Dir [(''SKILL.md'', File (Data ''# demo'')),
          (''assets'', Dir [(''logo.png'', File (Data ''PNG''))])]"

definition demo_world :: world where
  "demo_world =
     \<lparr>fs = Dir [(''work'', Dir [(''skills'', Dir [(''demo'', demo_skill)])])],
      cwd = [''work''], stdout = [], stderr = []\<rparr>"

text \<open>The same tree with an older \<^verbatim>\<open>dist/demo.skill\<close> and another file in \<^verbatim>\<open>dist\<close>.\<close>

definition demo_world_dist :: world where
  "demo_world_dist =
     \<lparr>fs = Dir [(''work'',
              Dir [(''skills'', Dir [(''demo'', demo_skill)]),
                   (''dist'', Dir [(''notes.txt'', File (Data ''keep'')),
                                   (''demo.skill'', File (Data ''old''))])])],
      cwd = [''work''], stdout = [], stderr = []\<rparr>"

text \<open>A skill directory with a hidden file and a hidden directory.\<close>

definition hidden_world :: world where
  "hidden_world =
     \<lparr>fs = Dir [(''work'',
              Dir [(''pack'',
                Dir [(''.env'', File (Data ''KEY=1'')),
                     (''SKILL.md'', File (Data ''# pack'')),
                     (''.git'', Dir [(''config'', File (Data ''[core]''))]),
                     (''docs'', Dir [(''guide.md'', File (Data ''guide'')),
                                     (''.draft'', File (Data ''draft''))])])])],
      cwd = [''work''], stdout = [], stderr = []\<rparr>"



text \<open>A file system whose root itself holds \<^verbatim>\<open>SKILL.md\<close>.\<close>

definition root_skill_world :: world where
  "root_skill_world =
     \<lparr>fs = Dir [(''SKILL.md'', File (Data ''# root'')), (''out'', Dir [])],
      cwd = [], stdout = [], stderr = []\<rparr>"

section \<open>Properties of the file system operations\<close>


lemma new_dirs_Dir: "\<exists>ds. new_dirs p = Dir ds"
  by (cases p) auto

lemma lookup_new_dirs:
  "lookup (new_dirs p) q = (if prefix q p then Some (new_dirs (drop (length q) p)) else None)"
proof (induction p arbitrary: q)
  case Nil
  then show ?case by (cases q) auto
next
  case (Cons x p)
  then show ?case by (cases q) auto
qed


lemma lookup_mkdir_other:
  "mkdir_parents n p = Inr n' \<Longrightarrow> \<not> prefix q p \<Longrightarrow> lookup n' q = lookup n q"
proof (induction n p arbitrary: n' q rule: mkdir_parents.induct)
  case (4 es x p)
  show ?case
  proof (cases q)
    case Nil
    with 4 show ?thesis by simp
  next
    case (Cons y q')
    show ?thesis
    proof (cases "map_of es x")
      case None
      with 4 Cons show ?thesis
        by (auto simp: map_add_def lookup_new_dirs split: option.splits)
    next
      case (Some m)
      with 4 Cons show ?thesis
        by (auto simp: update_conv' split: sum.splits option.splits)
    qed
  qed
qed auto

lemma lookup_mkdir_prefix:
  "mkdir_parents n p = Inr n' \<Longrightarrow> prefix q p \<Longrightarrow> \<exists>ds. lookup n' q = Some (Dir ds)"
proof (induction n p arbitrary: n' q rule: mkdir_parents.induct)
  case (4 es x p)
  show ?case
  proof (cases q)
    case Nil
    with 4 show ?thesis by (auto split: option.splits sum.splits)
  next
    case (Cons y q')
    show ?thesis
    proof (cases "map_of es x")
      case None
      with 4 Cons show ?thesis
        using new_dirs_Dir[of "drop (length q') p"]
        by (auto simp: map_add_def lookup_new_dirs split: option.splits)
    next
      case (Some m)
      with 4 Cons show ?thesis
        by (auto simp: update_conv' split: sum.splits option.splits)
    qed
  qed
qed auto




lemma lookup_write_same:
  "write_file n p c = Inr n' \<Longrightarrow> lookup n' p = Some (File c)"
proof (induction n p c arbitrary: n' rule: write_file.induct)
  case (4 es x p c)
  then show ?case
    by (auto simp: map_add_def update_conv' split: option.splits sum.splits if_splits)
qed auto

lemma lookup_write_other:
  "write_file n p c = Inr n' \<Longrightarrow> \<not> prefix q p \<Longrightarrow> lookup n' q = lookup n q"
proof (induction n p c arbitrary: n' q rule: write_file.induct)
  case (1 uu c)
  then show ?case by (cases q) auto
next
  case (4 es x p c)
  show ?case
  proof (cases q)
    case Nil
    with 4 show ?thesis by simp
  next
    case (Cons y q')
    show ?thesis
    proof (cases "map_of es x")
      case None
      with 4 Cons show ?thesis
        by (cases q') (auto simp: map_add_def split: option.splits if_splits)
    next
      case (Some m)
      with 4 Cons show ?thesis
        by (auto simp: update_conv' split: sum.splits option.splits)
    qed
  qed
qed auto



lemma write_prefix_dir:
  "write_file n p c = Inr n' \<Longrightarrow> strict_prefix q p \<Longrightarrow>
     (\<exists>ds. lookup n q = Some (Dir ds)) \<and> (\<exists>ds. lookup n' q = Some (Dir ds))"
proof (induction n p c arbitrary: n' q rule: write_file.induct)
  case (4 es x p c)
  show ?case
  proof (cases q)
    case Nil
    with 4 show ?thesis by (auto split: option.splits sum.splits if_splits)
  next
    case (Cons y q')
    with 4 show ?thesis
      by (auto simp: update_conv' map_add_def split: sum.splits option.splits if_splits)
  qed
qed auto

section \<open>Properties of the walk\<close>

lemma relative_to_below:
  "prefix base root \<Longrightarrow> relative_to (root @ p) base = Inr (drop (length base) root @ p)"
  by (auto simp: relative_to_def prefix_def)

lemma write_files_None:
  "prefix base root \<Longrightarrow> fst (write_files zp base root es zf) = None"
  by (induction zp base root es zf rule: write_files.induct) (auto simp: relative_to_below)

lemma write_files_names:
  "prefix base root \<Longrightarrow>
   (a \<in> fst ` set (snd (write_files zp base root es zf))) =
   (a \<in> fst ` set zf \<or>
    (\<exists>f c. (f, File c) \<in> set es \<and> \<not> startswith_dot f \<and> a = str_rel (drop (length base) root @ [f])))"
proof (induction zp base root es zf rule: write_files.induct)
  case (3 zpath base root f c es zf)
  then show ?case
    by (auto simp: relative_to_below zf_write_def)
qed auto

lemma walk_None:
  "prefix base root \<Longrightarrow> fst (os_walk zp base root n zf) = None"
  "prefix base root \<Longrightarrow> fst (walk_dirs zp base root es zf) = None"
proof (induction zp base root n zf and zp base root es zf rule: os_walk_walk_dirs.induct)
  case (2 zpath base root es zf)
  obtain zf' where w: "write_files zpath base root es zf = (None, zf')"
    using write_files_None[OF 2(2), of zpath es zf] by (cases "write_files zpath base root es zf") auto
  from 2(1)[OF w[symmetric] refl 2(2)] w show ?case by simp
next
  case (5 zpath base root d sub es zf)
  show ?case
  proof (cases "startswith_dot d")
    case True
    with 5(1)[OF True 5(4)] show ?thesis by simp
  next
    case False
    have p: "prefix base (root @ [d])" using 5(4) by simp
    obtain zf' where w: "os_walk zpath base (root @ [d]) (Dir sub) zf = (None, zf')"
      using 5(2)[OF False p] by (cases "os_walk zpath base (root @ [d]) (Dir sub) zf") auto
    from 5(3)[OF False w[symmetric] refl 5(4)] w False show ?thesis by simp
  qed
qed auto


lemma walk_ok:
  "prefix base root \<Longrightarrow> os_walk zp base root n zf = (None, snd (os_walk zp base root n zf))"
  "prefix base root \<Longrightarrow> walk_dirs zp base root es zf = (None, snd (walk_dirs zp base root es zf))"
  using walk_None[of base root zp] by (metis prod.collapse)+

lemma write_files_ok:
  "prefix base root \<Longrightarrow> write_files zp base root es zf = (None, snd (write_files zp base root es zf))"
  using write_files_None[of base root zp] by (metis prod.collapse)

lemma lookup_Dir_file_iff:
  assumes "distinct (map fst es)"
  shows "(lookup (Dir es) p = Some (File c)) =
     ((\<exists>f. p = [f] \<and> (f, File c) \<in> set es) \<or>
      (\<exists>d sub q. p = d # q \<and> (d, Dir sub) \<in> set es \<and> lookup (Dir sub) q = Some (File c)))"
proof (cases p)
  case Nil
  then show ?thesis by simp
next
  case (Cons x q)
  show ?thesis
  proof (cases "map_of es x")
    case None
    then have "\<And>n. (x, n) \<notin> set es" by (metis map_of_SomeD weak_map_of_SomeI option.distinct(1) assms map_of_eq_Some_iff)
    with None Cons show ?thesis by auto
  next
    case (Some n)
    then have in_es: "\<And>m. ((x, m) \<in> set es) = (m = n)"
      using assms by (metis map_of_eq_Some_iff option.inject)
    show ?thesis
    proof (cases n)
      case (File c')
      with Some Cons in_es show ?thesis by (cases q) auto
    next
      case (Dir sub)
      with Some Cons in_es show ?thesis by (cases q) auto
    qed
  qed
qed

lemma ex_Cons_dirs:
  "(\<exists>x s. (x, Dir s) \<in> set ((d, n) # es) \<and> P x s) =
   ((\<exists>s. n = Dir s \<and> P d s) \<or> (\<exists>x s. (x, Dir s) \<in> set es \<and> P x s))"
  by auto

lemma walk_names:
  "prefix base root \<Longrightarrow> wf_node n \<Longrightarrow>
   (a \<in> fst ` set (snd (os_walk zp base root n zf))) =
   (a \<in> fst ` set zf \<or>
    (\<exists>p c. lookup n p = Some (File c) \<and> p \<noteq> [] \<and> visible p \<and>
       a = str_rel (drop (length base) root @ p)))"
  "prefix base root \<Longrightarrow> wf_listing es \<Longrightarrow>
   (a \<in> fst ` set (snd (walk_dirs zp base root es zf))) =
   (a \<in> fst ` set zf \<or>
    (\<exists>d sub. (d, Dir sub) \<in> set es \<and> (\<not> startswith_dot d \<and>
       (\<exists>p c. lookup (Dir sub) p = Some (File c) \<and> visible p \<and>
       a = str_rel (drop (length base) root @ d # p)))))"
proof (induction zp base root n zf and zp base root es zf rule: os_walk_walk_dirs.induct)
  case (1 zpath base root c zf)
  then show ?case by (auto simp: neq_Nil_conv)
next
  case (2 zpath base root es zf)
  define zf' where "zf' = snd (write_files zpath base root es zf)"
  have w: "write_files zpath base root es zf = (None, zf')"
    unfolding zf'_def using write_files_ok[OF 2(2)] .
  from 2(3) have d: "distinct (map fst es)" and wl: "wf_listing es" by simp_all
  let ?S = "\<lambda>p. str_rel (drop (length base) root @ p)"
  let ?F = "\<exists>f c. (f, File c) \<in> set es \<and> \<not> startswith_dot f \<and> a = ?S [f]"
  let ?D = "\<exists>d sub. (d, Dir sub) \<in> set es \<and> (\<not> startswith_dot d \<and>
       (\<exists>p c. lookup (Dir sub) p = Some (File c) \<and> visible p \<and> a = ?S (d # p)))"
  let ?R = "\<exists>p c. lookup (Dir es) p = Some (File c) \<and> p \<noteq> [] \<and> visible p \<and> a = ?S p"
  have "(a \<in> fst ` set (snd (os_walk zpath base root (Dir es) zf))) =
        (a \<in> fst ` set (snd (walk_dirs zpath base root es zf')))"
    using w by simp
  also have "\<dots> = (a \<in> fst ` set zf' \<or> ?D)"
    using 2(1)[OF w[symmetric] refl 2(2) wl] .
  also have "\<dots> = (a \<in> fst ` set zf \<or> ?R)"
  proof -
    have "?R = (?F \<or> ?D)"
    proof
      assume ?R
      then obtain p c where pc: "lookup (Dir es) p = Some (File c)" "visible p" "a = ?S p"
        by blast
      from pc(1) consider f where "p = [f]" "(f, File c) \<in> set es"
        | x sub q where "p = x # q" "(x, Dir sub) \<in> set es" "lookup (Dir sub) q = Some (File c)"
        unfolding lookup_Dir_file_iff[OF d] by blast
      then show "?F \<or> ?D"
      proof cases
        case 1
        with pc have ?F by (auto simp: visible_def)
        then show ?thesis ..
      next
        case 2
        with pc have "\<not> startswith_dot x" "visible q" by (auto simp: visible_def)
        with 2 pc(3) have ?D by blast
        then show ?thesis ..
      qed
    next
      assume "?F \<or> ?D"
      then show ?R
      proof
        assume ?F
        then obtain f c where f: "(f, File c) \<in> set es" "\<not> startswith_dot f" "a = ?S [f]"
          by blast
        then have "lookup (Dir es) [f] = Some (File c)" "visible [f]"
          unfolding lookup_Dir_file_iff[OF d] by (auto simp: visible_def)
        with f(3) show ?R by blast
      next
        assume ?D
        then obtain x sub q c where x: "(x, Dir sub) \<in> set es" "\<not> startswith_dot x"
          "lookup (Dir sub) q = Some (File c)" "visible q" "a = ?S (x # q)"
          by blast
        then have "lookup (Dir es) (x # q) = Some (File c)" "visible (x # q)"
          unfolding lookup_Dir_file_iff[OF d] by (auto simp: visible_def)
        with x(5) show ?R by blast
      qed
    qed
    then show ?thesis
      unfolding zf'_def write_files_names[OF 2(2)] by blast
  qed
  finally show ?case .
next
  case (3 zpath base root zf)
  then show ?case by simp
next
  case (4 zpath base root d c es zf)
  from 4(3) have wl: "wf_listing es" by simp
  show ?case
    unfolding ex_Cons_dirs using 4(1)[OF 4(2) wl] by simp
next
  case (5 zpath base root d sub es zf)
  from 5(5) have wn: "wf_node (Dir sub)" and wl: "wf_listing es" by simp_all
  show ?case
  proof (cases "startswith_dot d")
    case True
    have e: "snd (walk_dirs zpath base root ((d, Dir sub) # es) zf) =
        snd (walk_dirs zpath base root es zf)"
      using True by simp
    show ?thesis
      unfolding e ex_Cons_dirs 5(1)[OF True 5(4) wl] using True by simp
  next
    case False
    have p: "prefix base (root @ [d])" using 5(4) by simp
    define zf' where "zf' = snd (os_walk zpath base (root @ [d]) (Dir sub) zf)"
    have w: "os_walk zpath base (root @ [d]) (Dir sub) zf = (None, zf')"
      unfolding zf'_def using walk_ok(1)[OF p] .
    have dr: "drop (length base) (root @ [d]) = drop (length base) root @ [d]"
      using 5(4) by (auto simp: prefix_def)
    have e: "snd (walk_dirs zpath base root ((d, Dir sub) # es) zf) =
        snd (walk_dirs zpath base root es zf')"
      using w False by simp
    have z: "(a \<in> fst ` set zf') = (a \<in> fst ` set zf \<or>
      (\<exists>p c. lookup (Dir sub) p = Some (File c) \<and> p \<noteq> [] \<and> visible p \<and>
       a = str_rel (drop (length base) root @ d # p)))"
      unfolding zf'_def 5(2)[OF False p wn] dr by simp
    have ne: "\<And>p c. lookup (Dir sub) p = Some (File c) \<Longrightarrow> p \<noteq> []"
      by auto
    show ?thesis
      unfolding e ex_Cons_dirs 5(3)[OF False w[symmetric] refl 5(4) wl] z
      using False ne by (simp only: node.inject simp_thms) blast
  qed
qed

section \<open>The steps of a packaging run\<close>


lemma package_skill_success:
  assumes "package_skill zsize skill out w = (Inr r, w')"
  shows "\<exists>fs1 fs2 fs3 zf.
     path_exists (fs w) (resolve (cwd w) skill @ [''SKILL.md'']) \<and>
     mkdir_parents (fs w) (resolve (cwd w) out) = Inr fs1 \<and>
     write_file fs1 (archive_path w skill out) (Zip False []) = Inr fs2 \<and>
     walk_skill fs2 (archive_path w skill out) (resolve (cwd w) skill) = (None, zf) \<and>
     write_file fs2 (archive_path w skill out) (Zip True zf) = Inr fs3 \<and>
     r = str_path (archive_path w skill out) \<and>
     w' = w\<lparr>fs := fs3,
            stdout := stdout w @
              [''Packaged: '' @ str_path (archive_path w skill out) @ '' ('' @
               show_nat (zsize zf) @ '' bytes)'']\<rparr>"
proof -
  let ?sp = "resolve (cwd w) skill" and ?od = "resolve (cwd w) out"
  let ?of = "archive_path w skill out"
  from assms have ex: "path_exists (fs w) (?sp @ [''SKILL.md''])"
    by (auto simp: package_skill_def Let_def split: if_splits)
  from assms ex obtain fs1 where m: "mkdir_parents (fs w) ?od = Inr fs1"
    by (auto simp: package_skill_def Let_def split: sum.splits)
  from assms ex m obtain fs2 where o: "write_file fs1 ?of (Zip False []) = Inr fs2"
    by (auto simp: package_skill_def Let_def archive_path_def split: sum.splits)
  obtain raised zf where wk: "walk_skill fs2 ?of ?sp = (raised, zf)"
    by (cases "walk_skill fs2 ?of ?sp")
  from assms ex m o wk obtain fs3 where c: "write_file fs2 ?of (Zip True zf) = Inr fs3"
    by (auto simp: package_skill_def Let_def archive_path_def split: sum.splits)
  from assms ex m o wk c have r: "raised = None"
    by (auto simp: package_skill_def Let_def archive_path_def split: option.splits)
  have sz: "st_size zsize fs3 ?of = Inr (zsize zf)"
    using lookup_write_same[OF c] by (simp add: st_size_def)
  from assms ex m o wk c r sz
  have "r = str_path ?of" and
    "w' = w\<lparr>fs := fs3, stdout := stdout w @
              [''Packaged: '' @ str_path ?of @ '' ('' @ show_nat (zsize zf) @ '' bytes)'']\<rparr>"
    by (auto simp: package_skill_def Let_def archive_path_def)
  with ex m o wk c r show ?thesis by blast
qed

lemma walk_skill_None:
  "fst (walk_skill n zp sp) = None"
  by (auto simp: walk_skill_def parent_def walk_None(1) prefixeq_butlast split: option.splits)


lemma str_path_absolute: "take 1 (str_path p) = ''/''"
  by (cases p) (auto simp: str_path_def)

lemma walk_skill_ok: "walk_skill n zp sp = (None, snd (walk_skill n zp sp))"
  using walk_skill_None by (metis prod.collapse)

lemma package_skill_unfold:
  assumes "path_exists (fs w) (resolve (cwd w) skill @ [''SKILL.md''])"
  shows "package_skill zsize skill out w =
    (case mkdir_parents (fs w) (resolve (cwd w) out) of
       Inl e \<Rightarrow> (Inl e, w)
     | Inr fs1 \<Rightarrow>
        (case write_file fs1 (archive_path w skill out) (Zip False []) of
           Inl e \<Rightarrow> (Inl e, w\<lparr>fs := fs1\<rparr>)
         | Inr fs2 \<Rightarrow>
            (case write_file fs2 (archive_path w skill out)
                    (Zip True (snd (walk_skill fs2 (archive_path w skill out)
                                      (resolve (cwd w) skill)))) of
               Inl e \<Rightarrow> (Inl e, w\<lparr>fs := fs2\<rparr>)
             | Inr fs3 \<Rightarrow>
                 (Inr (str_path (archive_path w skill out)),
                  w\<lparr>fs := fs3,
                    stdout := stdout w @
                      [''Packaged: '' @ str_path (archive_path w skill out) @ '' ('' @
                       show_nat (zsize (snd (walk_skill fs2 (archive_path w skill out)
                                      (resolve (cwd w) skill)))) @ '' bytes)'']\<rparr>))))"
proof (cases "mkdir_parents (fs w) (resolve (cwd w) out)")
  case (Inl e)
  with assms show ?thesis by (simp add: package_skill_def Let_def)
next
  case m: (Inr fs1)
  show ?thesis
  proof (cases "write_file fs1 (archive_path w skill out) (Zip False [])")
    case (Inl e)
    with assms m show ?thesis by (simp add: package_skill_def Let_def archive_path_def)
  next
    case o: (Inr fs2)
    define zf where "zf = snd (walk_skill fs2 (archive_path w skill out) (resolve (cwd w) skill))"
    have wk: "walk_skill fs2 (archive_path w skill out) (resolve (cwd w) skill) = (None, zf)"
      unfolding zf_def by (rule walk_skill_ok)
    show ?thesis
    proof (cases "write_file fs2 (archive_path w skill out) (Zip True zf)")
      case (Inl e)
      with assms m o wk show ?thesis
        by (simp add: package_skill_def Let_def archive_path_def)
    next
      case c: (Inr fs3)
      have sz: "st_size zsize fs3 (archive_path w skill out) = Inr (zsize zf)"
        using lookup_write_same[OF c] by (simp add: st_size_def)
      from assms m o wk c sz show ?thesis
        by (simp add: package_skill_def Let_def archive_path_def)
    qed
  qed
qed


section \<open>The command line without a skill path\<close>

text \<open>
  C7. Called with no argument besides the program's name, the script prints the usage
  line to standard error and exits with status 1; the packager is not run: the file
  system and standard output are as before, and the usage line is all that standard
  error gains.
\<close>

theorem main_no_skill_path_usage:
  "main zsize [prog] w =
     (Inl (SystemExit 1),
      w\<lparr>stderr := stderr w @ [''Usage: '' @ prog @ '' <skill-path> [output-dir]'']\<rparr>)
   \<and> exit_status (fst (main zsize [prog] w)) = 1
   \<and> fs (snd (main zsize [prog] w)) = fs w
   \<and> stdout (snd (main zsize [prog] w)) = stdout w"
  by (simp add: main_def)

section \<open>The missing manifest\<close>




section \<open>The returned path\<close>

text \<open>
  C8. A run that returns, returns the string of the absolute path of the archive: the
  resolved output directory joined with the source path's name and \<^verbatim>\<open>.skill\<close>. The
  string starts with a slash, and a closed archive is at that path afterwards.
\<close>

theorem package_skill_returns_archive_path:
  assumes "package_skill zsize skill out w = (Inr r, w')"
  shows "r = str_path (resolve (cwd w) out @ [path_name (resolve (cwd w) skill) @ ''.skill''])
     \<and> take 1 r = ''/''
     \<and> archive_at (fs w') (resolve (cwd w) out @ [path_name (resolve (cwd w) skill) @ ''.skill''])
         \<noteq> None"
proof -
  from package_skill_success[OF assms] obtain fs2 fs3 zf where
    c: "write_file fs2 (archive_path w skill out) (Zip True zf) = Inr fs3"
    and r: "r = str_path (archive_path w skill out)"
    and w': "fs w' = fs3"
    by auto
  from lookup_write_same[OF c] w' have "archive_at (fs w') (archive_path w skill out) = Some zf"
    by (simp add: archive_at_def)
  moreover have "take 1 r = ''/''" unfolding r by (rule str_path_absolute)
  ultimately show ?thesis using r unfolding archive_path_def by blast
qed

theorem package_skill_returns_archive_path_witness:
  "fst (package_skill sample_zsize ''skills/demo'' ''dist'' demo_world) = Inr ''/work/dist/demo.skill''
   \<and> ''/work/dist/demo.skill'' = str_path ([''work'', ''dist''] @ [''demo'' @ ''.skill''])
   \<and> archive_at (fs (snd (package_skill sample_zsize ''skills/demo'' ''dist'' demo_world)))
        [''work'', ''dist'', ''demo.skill''] \<noteq> None"
proof -
  have f: "fst (package_skill sample_zsize ''skills/demo'' ''dist'' demo_world) =
      Inr ''/work/dist/demo.skill''"
    by code_simp
  then have run: "package_skill sample_zsize ''skills/demo'' ''dist'' demo_world =
      (Inr ''/work/dist/demo.skill'',
       snd (package_skill sample_zsize ''skills/demo'' ''dist'' demo_world))"
    by (metis prod.collapse)
  have o: "resolve (cwd demo_world) ''dist'' = [''work'', ''dist'']"
    and n: "path_name (resolve (cwd demo_world) ''skills/demo'') = ''demo''"
    by code_simp+
  from package_skill_returns_archive_path[OF run] f show ?thesis
    unfolding o n by simp
qed

section \<open>What a run changes on the file system\<close>

lemma mkdir_prefix_existing:
  "mkdir_parents n p = Inr n' \<Longrightarrow> prefix q p \<Longrightarrow> lookup n q = Some m \<Longrightarrow> \<exists>ds. m = Dir ds"
proof (induction n p arbitrary: n' q rule: mkdir_parents.induct)
  case (4 es x p)
  show ?case
  proof (cases q)
    case Nil
    with 4(4) show ?thesis by auto
  next
    case (Cons y q')
    with 4 show ?thesis
      by (auto split: option.splits sum.splits)
  qed
qed auto

lemma stat_mkdir:
  assumes "mkdir_parents n p = Inr n'"
  shows "stat_at n' q = (if prefix q p then Some IsDir else stat_at n q)"
proof (cases "prefix q p")
  case True
  with lookup_mkdir_prefix[OF assms True] show ?thesis by (auto simp: stat_at_def)
next
  case False
  with lookup_mkdir_other[OF assms False] show ?thesis by (simp add: stat_at_def)
qed

lemma stat_mkdir_existing:
  assumes "mkdir_parents n p = Inr n'" and "stat_at n q \<noteq> None"
  shows "stat_at n' q = stat_at n q"
proof (cases "prefix q p")
  case True
  from assms(2) obtain m where m: "lookup n q = Some m" by (auto simp: stat_at_def split: option.splits)
  from mkdir_prefix_existing[OF assms(1) True m] m have "stat_at n q = Some IsDir"
    by (auto simp: stat_at_def)
  with True show ?thesis by (simp add: stat_mkdir[OF assms(1)])
next
  case False
  then show ?thesis by (simp add: stat_mkdir[OF assms(1)])
qed

lemma stat_write:
  assumes "write_file n p c = Inr n'"
  shows "stat_at n' q = (if q = p then Some (IsFile c) else stat_at n q)"
proof -
  consider "q = p" | "strict_prefix q p" | "\<not> prefix q p"
    by (auto simp: strict_prefix_def)
  then show ?thesis
  proof cases
    case 1
    with lookup_write_same[OF assms] show ?thesis by (simp add: stat_at_def)
  next
    case 2
    with write_prefix_dir[OF assms 2] show ?thesis by (auto simp: stat_at_def)
  next
    case 3
    then have "q \<noteq> p" by auto
    with lookup_write_other[OF assms 3] show ?thesis by (simp add: stat_at_def)
  qed
qed

text \<open>The file system after a run, whatever its outcome.\<close>

lemma package_skill_fs_cases:
  obtains (unchanged) "fs (snd (package_skill zsize skill out w)) = fs w"
  | (made) fs1 where "mkdir_parents (fs w) (resolve (cwd w) out) = Inr fs1"
      "fs (snd (package_skill zsize skill out w)) = fs1"
  | (opened) fs1 fs2 where "mkdir_parents (fs w) (resolve (cwd w) out) = Inr fs1"
      "write_file fs1 (archive_path w skill out) (Zip False []) = Inr fs2"
      "fs (snd (package_skill zsize skill out w)) = fs2"
  | (closed) fs1 fs2 fs3 zf where "mkdir_parents (fs w) (resolve (cwd w) out) = Inr fs1"
      "write_file fs1 (archive_path w skill out) (Zip False []) = Inr fs2"
      "write_file fs2 (archive_path w skill out) (Zip True zf) = Inr fs3"
      "fs (snd (package_skill zsize skill out w)) = fs3"
proof (cases "path_exists (fs w) (resolve (cwd w) skill @ [''SKILL.md''])")
  case False
  then have "fs (snd (package_skill zsize skill out w)) = fs w"
    by (simp add: package_skill_def Let_def)
  then show ?thesis by (rule unchanged)
next
  case True
  note u = package_skill_unfold[OF True, of zsize out]
  show ?thesis
  proof (cases "mkdir_parents (fs w) (resolve (cwd w) out)")
    case (Inl e)
    then have "fs (snd (package_skill zsize skill out w)) = fs w"
      unfolding u by simp
    then show ?thesis by (rule unchanged)
  next
    case m: (Inr fs1)
    show ?thesis
    proof (cases "write_file fs1 (archive_path w skill out) (Zip False [])")
      case (Inl e)
      with m have "fs (snd (package_skill zsize skill out w)) = fs1"
        unfolding u by simp
      with m show ?thesis by (rule made)
    next
      case o: (Inr fs2)
      let ?zf = "snd (walk_skill fs2 (archive_path w skill out) (resolve (cwd w) skill))"
      show ?thesis
      proof (cases "write_file fs2 (archive_path w skill out) (Zip True ?zf)")
        case (Inl e)
        with m o have "fs (snd (package_skill zsize skill out w)) = fs2"
          unfolding u by simp
        with m o show ?thesis by (rule opened)
      next
        case c: (Inr fs3)
        with m o have "fs (snd (package_skill zsize skill out w)) = fs3"
          unfolding u by simp
        with m o c show ?thesis by (rule closed)
      qed
    qed
  qed
qed


lemma prefix_out_archive:
  "prefix q (resolve (cwd w) out) \<Longrightarrow> prefix q (archive_path w skill out)"
  by (simp add: archive_path_def)

lemma package_skill_lookup_frame:
  assumes "\<not> prefix q (archive_path w skill out)"
  shows "lookup (fs (snd (package_skill zsize skill out w))) q = lookup (fs w) q"
proof -
  from assms have q: "\<not> prefix q (resolve (cwd w) out)"
    using prefix_out_archive by blast
  show ?thesis
    by (cases rule: package_skill_fs_cases[of zsize skill out w])
       (simp_all add: lookup_mkdir_other[OF _ q] lookup_write_other[OF _ assms])
qed

lemma package_skill_stat_existing:
  assumes "q \<noteq> archive_path w skill out" and "stat_at (fs w) q \<noteq> None"
  shows "stat_at (fs (snd (package_skill zsize skill out w))) q = stat_at (fs w) q"
  using assms
  by (cases rule: package_skill_fs_cases[of zsize skill out w])
     (simp_all add: stat_mkdir_existing stat_write)

lemma package_skill_stat_new:
  assumes "q \<noteq> archive_path w skill out" and "stat_at (fs w) q = None"
    and "stat_at (fs (snd (package_skill zsize skill out w))) q \<noteq> None"
  shows "prefix q (resolve (cwd w) out) \<and>
     stat_at (fs (snd (package_skill zsize skill out w))) q = Some IsDir"
  using assms
  by (cases rule: package_skill_fs_cases[of zsize skill out w])
     (auto simp: stat_mkdir stat_write split: if_splits)

lemma source_not_archive:
  "resolve (cwd w) skill \<noteq> archive_path w skill out"
proof
  assume e: "resolve (cwd w) skill = archive_path w skill out"
  then have ne: "resolve (cwd w) skill \<noteq> []" by (auto simp: archive_path_def)
  from e have "last (resolve (cwd w) skill) = path_name (resolve (cwd w) skill) @ ''.skill''"
    by (metis archive_path_def last_snoc)
  with ne show False by (simp add: path_name_def)
qed

lemma source_not_below_archive:
  assumes "\<not> prefix (resolve (cwd w) skill) (resolve (cwd w) out)"
  shows "\<not> prefix (resolve (cwd w) skill) (archive_path w skill out)"
proof
  assume "prefix (resolve (cwd w) skill) (archive_path w skill out)"
  then have "prefix (resolve (cwd w) skill) (resolve (cwd w) out) \<or>
      resolve (cwd w) skill = archive_path w skill out"
    unfolding archive_path_def by (auto simp: prefix_snoc)
  with assms source_not_archive show False by blast
qed

section \<open>The one file written\<close>

text \<open>
  C5. For a source path whose name is \<open>X\<close> and any output directory, a run that
  returns leaves a regular file \<^verbatim>\<open>X.skill\<close> in the resolved output directory, holding
  a closed archive, whatever was or was not at that path before and whatever the source
  directory holds. It is the only file written: at every other path a regular file is
  there after the run exactly if it was there before, with the same content.
\<close>

theorem one_archive_file_written:
  assumes "package_skill zsize skill out w = (Inr r, w')"
  shows "(\<exists>es. stat_at (fs w')
            (resolve (cwd w) out @ [path_name (resolve (cwd w) skill) @ ''.skill'']) =
          Some (IsFile (Zip True es)))
     \<and> (\<forall>q c. q \<noteq> resolve (cwd w) out @ [path_name (resolve (cwd w) skill) @ ''.skill''] \<longrightarrow>
          (stat_at (fs w') q = Some (IsFile c)) = (stat_at (fs w) q = Some (IsFile c)))"
proof -
  let ?a = "archive_path w skill out"
  have w': "w' = snd (package_skill zsize skill out w)" using assms by simp
  from package_skill_success[OF assms] obtain fs2 fs3 zf where
    c: "write_file fs2 ?a (Zip True zf) = Inr fs3" and f: "fs w' = fs3"
    by auto
  have 1: "stat_at (fs w') ?a = Some (IsFile (Zip True zf))"
    unfolding f stat_write[OF c] by simp
  have 2: "(stat_at (fs w') q = Some (IsFile c)) = (stat_at (fs w) q = Some (IsFile c))"
    if q: "q \<noteq> ?a" for q c
  proof (cases "stat_at (fs w) q")
    case (Some s)
    with package_skill_stat_existing[OF q, of zsize] show ?thesis by (simp add: w')
  next
    case None
    show ?thesis
    proof (cases "stat_at (fs w') q")
      case n: None
      with None show ?thesis by simp
    next
      case (Some s)
      with package_skill_stat_new[OF q None, of zsize] None show ?thesis by (simp add: w')
    qed
  qed
  from 1 2 show ?thesis unfolding archive_path_def by blast
qed

theorem one_archive_file_written_witness:
  "fst (package_skill sample_zsize ''skills/demo'' ''dist'' demo_world_dist) =
     Inr ''/work/dist/demo.skill''
   \<and> stat_at (fs demo_world_dist) [''work'', ''dist'', ''demo.skill''] = Some (IsFile (Data ''old''))
   \<and> (\<exists>es. stat_at (fs (snd (package_skill sample_zsize ''skills/demo'' ''dist'' demo_world_dist)))
              [''work'', ''dist'', ''demo.skill''] = Some (IsFile (Zip True es)))
   \<and> stat_at (fs (snd (package_skill sample_zsize ''skills/demo'' ''dist'' demo_world_dist)))
        [''work'', ''dist'', ''notes.txt''] = Some (IsFile (Data ''keep''))"
proof -
  let ?run = "package_skill sample_zsize ''skills/demo'' ''dist'' demo_world_dist"
  have f: "fst ?run = Inr ''/work/dist/demo.skill''"
    by code_simp
  then have run: "?run = (Inr ''/work/dist/demo.skill'', snd ?run)"
    by (metis prod.collapse)
  have a: "resolve (cwd demo_world_dist) ''dist'' @
      [path_name (resolve (cwd demo_world_dist) ''skills/demo'') @ ''.skill''] =
      [''work'', ''dist'', ''demo.skill'']"
    by code_simp
  have old: "stat_at (fs demo_world_dist) [''work'', ''dist'', ''demo.skill''] =
      Some (IsFile (Data ''old''))"
    and keep: "stat_at (fs demo_world_dist) [''work'', ''dist'', ''notes.txt''] =
      Some (IsFile (Data ''keep''))"
    by code_simp+
  note t = one_archive_file_written[OF run, unfolded a]
  from t have "stat_at (fs (snd ?run)) [''work'', ''dist'', ''notes.txt''] =
      Some (IsFile (Data ''keep''))"
    using keep by simp
  with t f old show ?thesis by blast
qed

section \<open>The source directory is left alone\<close>

text \<open>
  C10. When the resolved output directory is not the source directory nor inside it,
  the tree at the source path is the same after the run as before, whatever the outcome.
  For every run: a path other than the archive's at which something existed keeps what
  \<^verbatim>\<open>stat\<close> sees there (a directory stays a directory, a file keeps its content), and
  a path other than the archive's at which something appears is the output directory or
  one of its parents, now a directory.
\<close>

theorem source_tree_untouched:
  assumes "\<not> prefix (resolve (cwd w) skill) (resolve (cwd w) out)"
  shows "lookup (fs (snd (package_skill zsize skill out w))) (resolve (cwd w) skill) =
         lookup (fs w) (resolve (cwd w) skill)
     \<and> (\<forall>q. q \<noteq> resolve (cwd w) out @ [path_name (resolve (cwd w) skill) @ ''.skill''] \<and>
             stat_at (fs w) q \<noteq> None \<longrightarrow>
          stat_at (fs (snd (package_skill zsize skill out w))) q = stat_at (fs w) q)
     \<and> (\<forall>q. q \<noteq> resolve (cwd w) out @ [path_name (resolve (cwd w) skill) @ ''.skill''] \<and>
             stat_at (fs w) q = None \<and>
             stat_at (fs (snd (package_skill zsize skill out w))) q \<noteq> None \<longrightarrow>
          prefix q (resolve (cwd w) out) \<and>
          stat_at (fs (snd (package_skill zsize skill out w))) q = Some IsDir)"
proof -
  have "lookup (fs (snd (package_skill zsize skill out w))) (resolve (cwd w) skill) =
         lookup (fs w) (resolve (cwd w) skill)"
    by (rule package_skill_lookup_frame[OF source_not_below_archive[OF assms]])
  then show ?thesis
    using package_skill_stat_existing[of _ w skill out zsize]
      package_skill_stat_new[of _ w skill out zsize]
    unfolding archive_path_def by blast
qed

theorem source_tree_untouched_witness:
  "\<not> prefix [''work'', ''skills'', ''demo''] [''work'', ''dist'']
   \<and> lookup (fs (snd (package_skill sample_zsize ''skills/demo'' ''dist'' demo_world)))
        [''work'', ''skills'', ''demo''] = Some demo_skill
   \<and> stat_at (fs (snd (package_skill sample_zsize ''skills/demo'' ''dist'' demo_world)))
        [''work'', ''skills''] = Some IsDir
   \<and> stat_at (fs (snd (package_skill sample_zsize ''skills/demo'' ''dist'' demo_world)))
        [''work'', ''dist''] = Some IsDir"
proof -
  let ?run = "package_skill sample_zsize ''skills/demo'' ''dist'' demo_world"
  have s: "resolve (cwd demo_world) ''skills/demo'' = [''work'', ''skills'', ''demo'']"
    and o: "resolve (cwd demo_world) ''dist'' = [''work'', ''dist'']"
    by code_simp+
  have np: "\<not> prefix (resolve (cwd demo_world) ''skills/demo'') (resolve (cwd demo_world) ''dist'')"
    unfolding s o by simp
  have l: "lookup (fs demo_world) [''work'', ''skills'', ''demo''] = Some demo_skill"
    and st: "stat_at (fs demo_world) [''work'', ''skills''] = Some IsDir"
    and d0: "stat_at (fs demo_world) [''work'', ''dist''] = None"
    by code_simp+
  have d1: "stat_at (fs (snd ?run)) [''work'', ''dist''] \<noteq> None"
    by code_simp
  note t = source_tree_untouched[OF np, of sample_zsize, unfolded s o]
  from t l have 1: "lookup (fs (snd ?run)) [''work'', ''skills'', ''demo''] = Some demo_skill"
    by simp
  from t st have 2: "stat_at (fs (snd ?run)) [''work'', ''skills''] = Some IsDir"
    by simp
  from t d0 d1 have 3: "stat_at (fs (snd ?run)) [''work'', ''dist''] = Some IsDir"
    by simp
  from 1 2 3 show ?thesis by simp
qed

section \<open>Creating the output directory\<close>

lemma manifest_not_archive:
  "resolve (cwd w) skill @ [''SKILL.md''] \<noteq> archive_path w skill out"
proof
  assume "resolve (cwd w) skill @ [''SKILL.md''] = archive_path w skill out"
  then have "''SKILL.md'' = path_name (resolve (cwd w) skill) @ ''.skill''"
    unfolding archive_path_def by (metis last_snoc)
  then have "last ''SKILL.md'' = last (path_name (resolve (cwd w) skill) @ ''.skill'')"
    by simp
  then show False by simp
qed


lemma is_file_stat: "is_file n p = (\<exists>c. stat_at n p = Some (IsFile c))"
  by (auto simp: is_file_def stat_at_def split: option.splits node.splits)

lemma path_exists_stat: "path_exists n p = (stat_at n p \<noteq> None)"
  by (auto simp: path_exists_def stat_at_def split: option.splits node.splits)






section \<open>Well-formed trees and path strings\<close>

lemma split_sep_no_slash:
  "CHR ''/'' \<notin> set cur \<Longrightarrow> x \<in> set (split_sep cur s) \<Longrightarrow> CHR ''/'' \<notin> set x"
  by (induction cur s rule: split_sep.induct) (auto split: if_splits)

lemma resolve_part_valid:
  assumes "\<forall>y\<in>set p. valid_name y" and "CHR ''/'' \<notin> set x"
  shows "\<forall>y\<in>set (resolve_part p x). valid_name y"
  using assms by (auto simp: resolve_part_def valid_name_def dest: in_set_butlastD)

lemma foldl_resolve_part_valid:
  "\<forall>y\<in>set p. valid_name y \<Longrightarrow> \<forall>x\<in>set xs. CHR ''/'' \<notin> set x \<Longrightarrow>
   \<forall>y\<in>set (foldl resolve_part p xs). valid_name y"
proof (induction xs arbitrary: p)
  case (Cons x xs)
  from Cons.prems have "\<forall>y\<in>set (resolve_part p x). valid_name y"
    by (intro resolve_part_valid) auto
  with Cons show ?case by simp
qed simp

lemma resolve_valid:
  assumes "\<forall>y\<in>set wd. valid_name y"
  shows "\<forall>y\<in>set (resolve wd s). valid_name y"
  unfolding resolve_def
  by (rule foldl_resolve_part_valid) (use assms split_sep_no_slash[of "[]" _ s] in auto)

lemma wf_listing_iff:
  "wf_listing es = (\<forall>(x, n)\<in>set es. valid_name x \<and> wf_node n)"
  by (induction es) auto

lemma lookup_append:
  "lookup n (p @ q) = (case lookup n p of None \<Rightarrow> None | Some m \<Rightarrow> lookup m q)"
  by (induction n p rule: lookup.induct) (auto split: option.splits)

lemma lookup_wf:
  "wf_node n \<Longrightarrow> lookup n p = Some m \<Longrightarrow> (\<forall>x\<in>set p. valid_name x) \<and> wf_node m"
proof (induction n p rule: lookup.induct)
  case (3 es x p)
  from 3(3) obtain k where k: "map_of es x = Some k" "lookup k p = Some m"
    by (auto split: option.splits)
  then have "(x, k) \<in> set es" by (auto dest: map_of_SomeD)
  with 3(2) have "valid_name x" "wf_node k" by (auto simp: wf_listing_iff)
  with 3(1)[OF k(1) _ k(2)] show ?case by simp
qed auto

lemma wf_new_dirs: "\<forall>x\<in>set p. valid_name x \<Longrightarrow> wf_node (new_dirs p)"
  by (induction p) auto

lemma wf_listing_update:
  "wf_listing es \<Longrightarrow> valid_name x \<Longrightarrow> wf_node n \<Longrightarrow> wf_listing (AList.update x n es)"
  by (induction es) auto

lemma wf_listing_snoc:
  "wf_listing es \<Longrightarrow> valid_name x \<Longrightarrow> wf_node n \<Longrightarrow> wf_listing (es @ [(x, n)])"
  by (induction es) auto

lemma distinct_snoc_new:
  "distinct (map fst es) \<Longrightarrow> map_of es x = None \<Longrightarrow> distinct (map fst (es @ [(x, n)]))"
  by (auto simp: map_of_eq_None_iff)

lemma wf_mkdir:
  "wf_node n \<Longrightarrow> \<forall>x\<in>set p. valid_name x \<Longrightarrow> mkdir_parents n p = Inr n' \<Longrightarrow> wf_node n'"
proof (induction n p arbitrary: n' rule: mkdir_parents.induct)
  case (4 es x p)
  show ?case
  proof (cases "map_of es x")
    case None
    with 4 show ?thesis
      by (auto simp: wf_listing_snoc wf_new_dirs distinct_snoc_new map_of_eq_None_iff)
  next
    case (Some k)
    then have "(x, k) \<in> set es" by (auto dest: map_of_SomeD)
    with 4(2) have wk: "wf_node k" by (auto simp: wf_listing_iff)
    from 4(4) Some obtain k' where k': "mkdir_parents k p = Inr k'" "n' = Dir (AList.update x k' es)"
      by (auto split: sum.splits)
    from 4(1)[OF Some wk _ k'(1)] 4(3) have "wf_node k'" by simp
    with 4(2,3) k'(2) show ?thesis
      by (simp add: wf_listing_update distinct_update)
  qed
qed auto

lemma wf_write:
  "wf_node n \<Longrightarrow> \<forall>x\<in>set p. valid_name x \<Longrightarrow> write_file n p c = Inr n' \<Longrightarrow> wf_node n'"
proof (induction n p c arbitrary: n' rule: write_file.induct)
  case (1 uu c)
  then show ?case by auto
next
  case (4 es x p c)
  show ?case
  proof (cases "map_of es x")
    case None
    with 4 show ?thesis
      by (auto simp: wf_listing_snoc distinct_snoc_new map_of_eq_None_iff split: if_splits)
  next
    case (Some k)
    then have "(x, k) \<in> set es" by (auto dest: map_of_SomeD)
    with 4(2) have wk: "wf_node k" by (auto simp: wf_listing_iff)
    from 4(4) Some obtain k' where k': "write_file k p c = Inr k'" "n' = Dir (AList.update x k' es)"
      by (auto split: sum.splits)
    from 4(1)[OF Some wk _ k'(1)] 4(3) have "wf_node k'" by simp
    with 4(2,3) k'(2) show ?thesis
      by (simp add: wf_listing_update distinct_update)
  qed
qed auto

lemma split_sep_append:
  "CHR ''/'' \<notin> set x \<Longrightarrow> split_sep cur (x @ rest) = split_sep (cur @ x) rest"
  by (induction x arbitrary: cur) auto

lemma split_sep_str_rel:
  "\<forall>x\<in>set (y # ys). CHR ''/'' \<notin> set x \<Longrightarrow> split_sep cur (str_rel (y # ys)) = (cur @ y) # ys"
proof (induction ys arbitrary: y cur)
  case Nil
  then show ?case using split_sep_append[of y cur "[]"] by simp
next
  case (Cons z zs)
  then have "split_sep [] (str_rel (z # zs)) = z # zs" by force
  with Cons.prems show ?case
    using split_sep_append[of y cur "CHR ''/'' # str_rel (z # zs)"] by simp
qed

lemma str_rel_components:
  "p \<noteq> [] \<Longrightarrow> \<forall>x\<in>set p. valid_name x \<Longrightarrow> split_sep [] (str_rel p) = p"
  using split_sep_str_rel[of "hd p" "tl p" "[]"] by (cases p) (auto simp: valid_name_def)

lemma str_rel_inj:
  assumes "str_rel p = str_rel q" "p \<noteq> []" "q \<noteq> []"
    "\<forall>x\<in>set p. valid_name x" "\<forall>x\<in>set q. valid_name x"
  shows "p = q"
  using assms str_rel_components by metis

section \<open>The entries of the archive\<close>

lemma wf_world_cwd: "wf_world w \<Longrightarrow> \<forall>x\<in>set (cwd w). valid_name x"
  by (auto simp: wf_world_def is_dir_def split: option.splits dest: lookup_wf)

lemma valid_skill_name:
  assumes "\<forall>x\<in>set p. valid_name x"
  shows "valid_name (path_name p @ ''.skill'')"
proof -
  have "CHR ''/'' \<notin> set (path_name p)"
    using assms by (cases "p = []") (auto simp: path_name_def valid_name_def)
  then show ?thesis by (auto simp: valid_name_def)
qed

lemma wf_world_archive_path:
  "wf_world w \<Longrightarrow> \<forall>x\<in>set (archive_path w skill out). valid_name x"
  using resolve_valid[OF wf_world_cwd, of w out] valid_skill_name[OF resolve_valid[OF wf_world_cwd, of w skill]]
  by (auto simp: archive_path_def)

lemma is_file_write:
  assumes "write_file n p c = Inr n'" and "is_file n p"
  shows "is_file n' q = is_file n q"
  using assms(2) unfolding is_file_stat stat_write[OF assms(1)] by auto

lemma arcname_eq:
  "arcname sp p = str_rel (drop (length (parent sp)) sp @ p)"
  by (simp add: arcname_def parent_def)

lemma archive_entry_names:
  assumes wf: "wf_world w" and run: "package_skill zsize skill out w = (Inr r, w')"
  shows "\<exists>zf. archive_at (fs w') (archive_path w skill out) = Some zf \<and>
     (\<forall>a. (a \<in> fst ` set zf) =
        (\<exists>p. is_file (fs w') (resolve (cwd w) skill @ p) \<and> p \<noteq> [] \<and> visible p \<and>
             a = arcname (resolve (cwd w) skill) p))"
proof -
  let ?sp = "resolve (cwd w) skill" and ?a = "archive_path w skill out"
  from package_skill_success[OF run] obtain fs1 fs2 fs3 zf where
    m: "mkdir_parents (fs w) (resolve (cwd w) out) = Inr fs1"
    and o: "write_file fs1 ?a (Zip False []) = Inr fs2"
    and wk: "walk_skill fs2 ?a ?sp = (None, zf)"
    and c: "write_file fs2 ?a (Zip True zf) = Inr fs3"
    and f: "fs w' = fs3"
    by auto
  from wf have "wf_node (fs w)" by (simp add: wf_world_def)
  with m have "wf_node fs1"
    using wf_mkdir resolve_valid[OF wf_world_cwd[OF wf]] by blast
  with o have wf2: "wf_node fs2"
    using wf_write wf_world_archive_path[OF wf] by blast
  have at: "archive_at (fs w') ?a = Some zf"
    using lookup_write_same[OF c] by (simp add: archive_at_def f)
  have fl: "is_file (fs w') q = is_file fs2 q" for q
    unfolding f using is_file_write[OF c] lookup_write_same[OF o] by (simp add: is_file_def)
  have "(a \<in> fst ` set zf) =
        (\<exists>p. is_file fs2 (?sp @ p) \<and> p \<noteq> [] \<and> visible p \<and> a = arcname ?sp p)" for a
  proof (cases "lookup fs2 ?sp")
    case None
    then have "zf = []" using wk by (simp add: walk_skill_def)
    moreover have "\<not> is_file fs2 (?sp @ p)" for p
      using None by (simp add: is_file_def lookup_append)
    ultimately show ?thesis by simp
  next
    case (Some tree)
    with wf2 have wt: "wf_node tree" using lookup_wf by blast
    have pre: "prefix (parent ?sp) ?sp" by (simp add: parent_def prefixeq_butlast)
    have zf: "zf = snd (os_walk ?a (parent ?sp) ?sp tree [])"
      using wk Some by (simp add: walk_skill_def)
    have il: "is_file fs2 (?sp @ p) = (\<exists>c. lookup tree p = Some (File c))" for p
      using Some by (auto simp: is_file_def lookup_append split: option.splits node.splits)
    show ?thesis
      unfolding zf walk_names(1)[OF pre wt] il arcname_eq by auto
  qed
  with at fl show ?thesis by simp
qed

lemma package_skill_wf:
  assumes wf: "wf_world w" and run: "package_skill zsize skill out w = (Inr r, w')"
  shows "wf_node (fs w')"
proof -
  let ?a = "archive_path w skill out"
  from package_skill_success[OF run] obtain fs1 fs2 fs3 zf where
    m: "mkdir_parents (fs w) (resolve (cwd w) out) = Inr fs1"
    and o: "write_file fs1 ?a (Zip False []) = Inr fs2"
    and c: "write_file fs2 ?a (Zip True zf) = Inr fs3"
    and f: "fs w' = fs3"
    by auto
  from wf have "wf_node (fs w)" by (simp add: wf_world_def)
  with m have "wf_node fs1"
    using wf_mkdir resolve_valid[OF wf_world_cwd[OF wf]] by blast
  with o have "wf_node fs2"
    using wf_write wf_world_archive_path[OF wf] by blast
  with c show ?thesis
    unfolding f using wf_write wf_world_archive_path[OF wf] by blast
qed

lemma lookup_below_is_dir:
  "lookup n (p @ x # q) = Some m \<Longrightarrow> \<exists>ds. lookup n p = Some (Dir ds)"
  by (cases "lookup n p"; cases "the (lookup n p)") (auto simp: lookup_append)

lemma package_skill_source_is_dir:
  assumes run: "package_skill zsize skill out w = (Inr r, w')"
  shows "is_dir (fs w') (resolve (cwd w) skill)"
proof -
  let ?m = "resolve (cwd w) skill @ [''SKILL.md'']"
  have w': "w' = snd (package_skill zsize skill out w)" using run by simp
  from package_skill_success[OF run] have "stat_at (fs w) ?m \<noteq> None"
    by (auto simp: path_exists_stat)
  from package_skill_stat_existing[where zsize = zsize and out = out and w = w and skill = skill,
      OF manifest_not_archive this] this
  obtain m where "lookup (fs w') ?m = Some m"
    by (auto simp: w' stat_at_def split: option.splits)
  from lookup_below_is_dir[of "fs w'" "resolve (cwd w) skill" "''SKILL.md''" "[]" m] this
  show ?thesis by (auto simp: is_dir_def)
qed

lemma package_skill_keeps_files:
  assumes run: "package_skill zsize skill out w = (Inr r, w')" and "is_file (fs w) q"
  shows "is_file (fs w') q"
proof (cases "q = archive_path w skill out")
  case True
  from package_skill_success[OF run] obtain fs2 fs3 zf where
    "write_file fs2 (archive_path w skill out) (Zip True zf) = Inr fs3" "fs w' = fs3"
    by auto
  with True show ?thesis using lookup_write_same by (simp add: is_file_def)
next
  case False
  have w': "w' = snd (package_skill zsize skill out w)" using run by simp
  from assms(2) have "stat_at (fs w) q \<noteq> None" by (auto simp: is_file_stat)
  from package_skill_stat_existing[OF False this, of zsize] assms(2) show ?thesis
    by (simp add: is_file_stat w')
qed

lemma arcname_inj:
  assumes "arcname sp p = arcname sp q" "p \<noteq> []" "q \<noteq> []"
    "\<forall>x\<in>set (sp @ p). valid_name x" "\<forall>x\<in>set (sp @ q). valid_name x"
  shows "p = q"
proof -
  let ?l = "drop (length (parent sp)) sp"
  have "set ?l \<subseteq> set sp" by (rule set_drop_subset)
  with assms(4,5) have "\<forall>x\<in>set (?l @ p). valid_name x" "\<forall>x\<in>set (?l @ q). valid_name x"
    by auto
  with assms(1,2,3) have "?l @ p = ?l @ q"
    unfolding arcname_eq by (intro str_rel_inj) auto
  then show ?thesis by simp
qed

section \<open>Hidden files and directories\<close>

text \<open>
  C3. In a well-formed world, after a run that returns, take any regular file below the
  source path, at the relative path \<open>p\<close>: the archive has an entry of its name
  exactly if \<open>p\<close> is visible, that is, if no component of \<open>p\<close> starts with a dot. So
  nothing below a hidden subdirectory is an entry (the directory is pruned), a hidden
  file is not an entry, and every other file is one. This holds for the files there
  before the run and for those there after it, and the archive has no other entries.
\<close>

theorem hidden_entries_excluded:
  assumes "wf_world w" and "package_skill zsize skill out w = (Inr r, w')"
  shows "\<exists>es. archive_at (fs w')
            (resolve (cwd w) out @ [path_name (resolve (cwd w) skill) @ ''.skill'']) = Some es
     \<and> (\<forall>p. is_file (fs w) (resolve (cwd w) skill @ p) \<longrightarrow>
           (arcname (resolve (cwd w) skill) p \<in> fst ` set es) = visible p)
     \<and> (\<forall>p. is_file (fs w') (resolve (cwd w) skill @ p) \<longrightarrow>
           (arcname (resolve (cwd w) skill) p \<in> fst ` set es) = visible p)
     \<and> (\<forall>a\<in>fst ` set es. \<exists>p. is_file (fs w') (resolve (cwd w) skill @ p) \<and> visible p \<and>
           a = arcname (resolve (cwd w) skill) p)"
proof -
  let ?sp = "resolve (cwd w) skill"
  from archive_entry_names[OF assms] obtain es where
    at: "archive_at (fs w') (archive_path w skill out) = Some es"
    and nm: "\<And>a. (a \<in> fst ` set es) =
        (\<exists>p. is_file (fs w') (?sp @ p) \<and> p \<noteq> [] \<and> visible p \<and> a = arcname ?sp p)"
    by blast
  have wf': "wf_node (fs w')" by (rule package_skill_wf[OF assms])
  have ne: "p \<noteq> []" if "is_file (fs w') (?sp @ p)" for p
    using that package_skill_source_is_dir[OF assms(2)]
    by (auto simp: is_file_def is_dir_def split: option.splits node.splits)
  have valid: "\<forall>x\<in>set (?sp @ p). valid_name x" if "is_file (fs w') (?sp @ p)" for p
    using that lookup_wf[OF wf', of "?sp @ p"]
    by (auto simp: is_file_def split: option.splits)
  have after: "(arcname ?sp p \<in> fst ` set es) = visible p" if f: "is_file (fs w') (?sp @ p)" for p
  proof
    assume "arcname ?sp p \<in> fst ` set es"
    then obtain q where q: "is_file (fs w') (?sp @ q)" "q \<noteq> []" "visible q"
      "arcname ?sp p = arcname ?sp q"
      unfolding nm by blast
    from arcname_inj[OF q(4) ne[OF f] q(2) valid[OF f] valid[OF q(1)]] q(3)
    show "visible p" by simp
  next
    assume "visible p"
    with f ne[OF f] show "arcname ?sp p \<in> fst ` set es"
      unfolding nm by blast
  qed
  have before: "(arcname ?sp p \<in> fst ` set es) = visible p" if "is_file (fs w) (?sp @ p)" for p
    using after[OF package_skill_keeps_files[OF assms(2) that]] .
  have only: "\<exists>p. is_file (fs w') (?sp @ p) \<and> visible p \<and> a = arcname ?sp p"
    if "a \<in> fst ` set es" for a
    using that unfolding nm by blast
  from at before after only show ?thesis
    unfolding archive_path_def by blast
qed

theorem hidden_entries_excluded_witness:
  "wf_world hidden_world
   \<and> fst (package_skill sample_zsize ''pack'' ''dist'' hidden_world) = Inr ''/work/dist/pack.skill''
   \<and> (\<exists>es. archive_at (fs (snd (package_skill sample_zsize ''pack'' ''dist'' hidden_world)))
              [''work'', ''dist'', ''pack.skill''] = Some es
        \<and> ''pack/SKILL.md'' \<in> fst ` set es
        \<and> ''pack/docs/guide.md'' \<in> fst ` set es
        \<and> ''pack/.env'' \<notin> fst ` set es
        \<and> ''pack/.git/config'' \<notin> fst ` set es
        \<and> ''pack/docs/.draft'' \<notin> fst ` set es)"
proof -
  let ?run = "package_skill sample_zsize ''pack'' ''dist'' hidden_world"
  have wf: "wf_world hidden_world"
    by code_simp
  have f: "fst ?run = Inr ''/work/dist/pack.skill''"
    by code_simp
  then have run: "?run = (Inr ''/work/dist/pack.skill'', snd ?run)"
    by (metis prod.collapse)
  have s: "resolve (cwd hidden_world) ''pack'' = [''work'', ''pack'']"
    and a: "resolve (cwd hidden_world) ''dist'' @ [path_name [''work'', ''pack''] @ ''.skill''] =
       [''work'', ''dist'', ''pack.skill'']"
    by code_simp+
  have files: "is_file (fs hidden_world) ([''work'', ''pack''] @ [''SKILL.md''])"
    "is_file (fs hidden_world) ([''work'', ''pack''] @ [''docs'', ''guide.md''])"
    "is_file (fs hidden_world) ([''work'', ''pack''] @ [''.env''])"
    "is_file (fs hidden_world) ([''work'', ''pack''] @ [''.git'', ''config''])"
    "is_file (fs hidden_world) ([''work'', ''pack''] @ [''docs'', ''.draft''])"
    by code_simp+
  have names: "arcname [''work'', ''pack''] [''SKILL.md''] = ''pack/SKILL.md''"
    "arcname [''work'', ''pack''] [''docs'', ''guide.md''] = ''pack/docs/guide.md''"
    "arcname [''work'', ''pack''] [''.env''] = ''pack/.env''"
    "arcname [''work'', ''pack''] [''.git'', ''config''] = ''pack/.git/config''"
    "arcname [''work'', ''pack''] [''docs'', ''.draft''] = ''pack/docs/.draft''"
    by code_simp+
  have vis: "visible [''SKILL.md'']" "visible [''docs'', ''guide.md'']"
    "\<not> visible [''.env'']" "\<not> visible [''.git'', ''config'']" "\<not> visible [''docs'', ''.draft'']"
    by code_simp+
  from hidden_entries_excluded[OF wf run, unfolded s a] obtain es where
    at: "archive_at (fs (snd ?run)) [''work'', ''dist'', ''pack.skill''] = Some es"
    and iff: "\<And>p. is_file (fs hidden_world) ([''work'', ''pack''] @ p) \<Longrightarrow>
        (arcname [''work'', ''pack''] p \<in> fst ` set es) = visible p"
    by blast
  from iff[OF files(1)] iff[OF files(2)] iff[OF files(3)] iff[OF files(4)] iff[OF files(5)]
  have "''pack/SKILL.md'' \<in> fst ` set es" "''pack/docs/guide.md'' \<in> fst ` set es"
    "''pack/.env'' \<notin> fst ` set es" "''pack/.git/config'' \<notin> fst ` set es"
    "''pack/docs/.draft'' \<notin> fst ` set es"
    unfolding names using vis by blast+
  with wf f at show ?thesis by blast
qed

section \<open>Entry names\<close>

lemma drop_parent: "sp \<noteq> [] \<Longrightarrow> drop (length (parent sp)) sp = [path_name sp]"
  by (cases sp rule: rev_cases) (auto simp: parent_def path_name_def)

lemma str_rel_prefix: "p \<noteq> [] \<Longrightarrow> prefix (x @ ''/'') (str_rel (x # p))"
  by (cases p) auto

text \<open>
  C4, as stated, fails for one source path: the root of the file system. Its name is
  empty and it is its own parent, so the entry of \<^verbatim>\<open>/SKILL.md\<close> is named
  \<^verbatim>\<open>SKILL.md\<close>, which does not begin with the (empty) name followed by a slash.
\<close>

theorem root_source_counterexample:
  "resolve (cwd root_skill_world) ''/'' = []
   \<and> path_name (resolve (cwd root_skill_world) ''/'') = []
   \<and> fst (package_skill sample_zsize ''/'' ''/out'' root_skill_world) = Inr ''/out/.skill''
   \<and> archive_at (fs (snd (package_skill sample_zsize ''/'' ''/out'' root_skill_world)))
        [''out'', ''.skill''] = Some [(''SKILL.md'', Data ''# root'')]
   \<and> \<not> prefix (path_name (resolve (cwd root_skill_world) ''/'') @ ''/'') ''SKILL.md''"
  by code_simp

text \<open>
  C4, amended. In a well-formed world, after a run that returns, every entry name of the
  archive is the name of a file below the source path: the string of that file's path
  relative to the parent of the resolved source path, which is a relative path in
  forward-slash notation (its pieces between slashes are the components of that relative
  path). When the resolved source path is not the root, the relative path starts with
  the source path's name, so the entry name begins with that name and a slash.
\<close>

theorem entry_names_relative_to_parent:
  assumes "wf_world w" and "package_skill zsize skill out w = (Inr r, w')"
  shows "\<exists>es. archive_at (fs w')
            (resolve (cwd w) out @ [path_name (resolve (cwd w) skill) @ ''.skill'']) = Some es
     \<and> (\<forall>a\<in>fst ` set es. \<exists>p rel.
           is_file (fs w') (resolve (cwd w) skill @ p) \<and>
           relative_to (resolve (cwd w) skill @ p) (parent (resolve (cwd w) skill)) = Inr rel \<and>
           a = str_rel rel \<and> split_sep [] a = rel \<and>
           (resolve (cwd w) skill \<noteq> [] \<longrightarrow>
              rel = path_name (resolve (cwd w) skill) # p \<and>
              prefix (path_name (resolve (cwd w) skill) @ ''/'') a))"
proof -
  let ?sp = "resolve (cwd w) skill"
  from archive_entry_names[OF assms] obtain es where
    at: "archive_at (fs w') (archive_path w skill out) = Some es"
    and nm: "\<And>a. (a \<in> fst ` set es) =
        (\<exists>p. is_file (fs w') (?sp @ p) \<and> p \<noteq> [] \<and> visible p \<and> a = arcname ?sp p)"
    by blast
  have wf': "wf_node (fs w')" by (rule package_skill_wf[OF assms])
  have pre: "prefix (parent ?sp) ?sp" by (simp add: parent_def prefixeq_butlast)
  have "\<exists>p rel. is_file (fs w') (?sp @ p) \<and>
           relative_to (?sp @ p) (parent ?sp) = Inr rel \<and>
           a = str_rel rel \<and> split_sep [] a = rel \<and>
           (?sp \<noteq> [] \<longrightarrow> rel = path_name ?sp # p \<and> prefix (path_name ?sp @ ''/'') a)"
    if "a \<in> fst ` set es" for a
  proof -
    from that obtain p where p: "is_file (fs w') (?sp @ p)" "p \<noteq> []" "a = arcname ?sp p"
      unfolding nm by blast
    let ?rel = "drop (length (parent ?sp)) ?sp @ p"
    have rel: "relative_to (?sp @ p) (parent ?sp) = Inr ?rel"
      by (rule relative_to_below[OF pre])
    have a: "a = str_rel ?rel" using p(3) by (simp add: arcname_eq)
    from p(1) have "\<forall>x\<in>set (?sp @ p). valid_name x"
      using lookup_wf[OF wf', of "?sp @ p"] by (auto simp: is_file_def split: option.splits)
    moreover have "set (drop (length (parent ?sp)) ?sp) \<subseteq> set ?sp" by (rule set_drop_subset)
    ultimately have v: "\<forall>x\<in>set ?rel. valid_name x" by auto
    from p(2) have "?rel \<noteq> []" by simp
    from str_rel_components[OF this v] a have sp: "split_sep [] a = ?rel" by simp
    have "?rel = path_name ?sp # p \<and> prefix (path_name ?sp @ ''/'') a" if "?sp \<noteq> []"
      using a p(2) by (simp add: drop_parent[OF that] str_rel_prefix)
    with p(1) rel a sp show ?thesis by blast
  qed
  with at show ?thesis unfolding archive_path_def by blast
qed

theorem entry_names_relative_to_parent_witness:
  "wf_world demo_world
   \<and> fst (package_skill sample_zsize ''skills/demo'' ''dist'' demo_world) =
       Inr ''/work/dist/demo.skill''
   \<and> [''work'', ''skills'', ''demo''] \<noteq> []
   \<and> (\<exists>es. archive_at (fs (snd (package_skill sample_zsize ''skills/demo'' ''dist'' demo_world)))
              [''work'', ''dist'', ''demo.skill''] = Some es
        \<and> ''demo/SKILL.md'' \<in> fst ` set es
        \<and> (\<exists>p. ''demo/SKILL.md'' = str_rel (''demo'' # p)
              \<and> split_sep [] ''demo/SKILL.md'' = ''demo'' # p
              \<and> prefix ''demo/'' ''demo/SKILL.md''))"
proof -
  let ?run = "package_skill sample_zsize ''skills/demo'' ''dist'' demo_world"
  have wf: "wf_world demo_world"
    by code_simp
  have f: "fst ?run = Inr ''/work/dist/demo.skill''"
    by code_simp
  then have run: "?run = (Inr ''/work/dist/demo.skill'', snd ?run)"
    by (metis prod.collapse)
  have s: "resolve (cwd demo_world) ''skills/demo'' = [''work'', ''skills'', ''demo'']"
    and a: "resolve (cwd demo_world) ''dist'' @
       [path_name [''work'', ''skills'', ''demo''] @ ''.skill''] =
       [''work'', ''dist'', ''demo.skill'']"
    and n: "path_name [''work'', ''skills'', ''demo''] = ''demo''"
    by code_simp+
  have at: "archive_at (fs (snd ?run)) [''work'', ''dist'', ''demo.skill''] =
      Some [(''demo/SKILL.md'', Data ''# demo''), (''demo/assets/logo.png'', Data ''PNG'')]"
    by code_simp
  from entry_names_relative_to_parent[OF wf run, unfolded s a n] at
  have "\<forall>a\<in>{''demo/SKILL.md'', ''demo/assets/logo.png''}. \<exists>p rel.
      a = str_rel rel \<and> split_sep [] a = rel \<and> rel = ''demo'' # p \<and> prefix ''demo/'' a"
    by simp
  then have "\<exists>p rel. ''demo/SKILL.md'' = str_rel rel \<and> split_sep [] ''demo/SKILL.md'' = rel \<and>
      rel = ''demo'' # p \<and> prefix ''demo/'' ''demo/SKILL.md''"
    by (rule bspec) simp
  then have "\<exists>p. ''demo/SKILL.md'' = str_rel (''demo'' # p)
              \<and> split_sep [] ''demo/SKILL.md'' = ''demo'' # p
              \<and> prefix ''demo/'' ''demo/SKILL.md''"
    by (elim exE conjE) (intro exI conjI, simp_all only:)
  with wf f at show ?thesis by simp
qed

section \<open>An output directory inside the source directory\<close>

lemma write_files_entries:
  "prefix base root \<Longrightarrow> (a, c') \<in> set (snd (write_files zp base root es zf)) \<Longrightarrow>
   (a, c') \<in> set zf \<or>
   (\<exists>f c. (f, File c) \<in> set es \<and> \<not> startswith_dot f \<and>
      a = str_rel (drop (length base) root @ [f]) \<and> read_ok zp (root @ [f]) c c')"
proof (induction zp base root es zf rule: write_files.induct)
  case (3 zpath base root f c es zf)
  show ?case
  proof (cases "startswith_dot f")
    case True
    with 3 show ?thesis by auto
  next
    case False
    let ?zf = "zf_write zpath (root @ [f]) c (str_rel (drop (length base) root @ [f])) zf"
    from 3(3,4) False have "(a, c') \<in> set (snd (write_files zpath base root es ?zf))"
      by (simp add: relative_to_below)
    from 3(2)[OF False relative_to_below[OF 3(3)] 3(3) this]
    consider "(a, c') \<in> set ?zf"
      | "\<exists>f c. (f, File c) \<in> set es \<and> \<not> startswith_dot f \<and>
          a = str_rel (drop (length base) root @ [f]) \<and> read_ok zpath (root @ [f]) c c'"
      by blast
    then show ?thesis
    proof cases
      case 1
      then have "(a, c') \<in> set zf \<or>
          (a = str_rel (drop (length base) root @ [f]) \<and> read_ok zpath (root @ [f]) c c')"
        by (auto simp: zf_write_def read_ok_def)
      with False show ?thesis by auto
    next
      case 2
      then show ?thesis by auto
    qed
  qed
qed auto

lemma walk_entries:
  "prefix base root \<Longrightarrow> wf_node n \<Longrightarrow> (a, c') \<in> set (snd (os_walk zp base root n zf)) \<Longrightarrow>
   (a, c') \<in> set zf \<or>
   (\<exists>p c. lookup n p = Some (File c) \<and> p \<noteq> [] \<and> visible p \<and>
      a = str_rel (drop (length base) root @ p) \<and> read_ok zp (root @ p) c c')"
  "prefix base root \<Longrightarrow> wf_listing es \<Longrightarrow> (a, c') \<in> set (snd (walk_dirs zp base root es zf)) \<Longrightarrow>
   (a, c') \<in> set zf \<or>
   (\<exists>d sub. (d, Dir sub) \<in> set es \<and> (\<not> startswith_dot d \<and>
      (\<exists>p c. lookup (Dir sub) p = Some (File c) \<and> visible p \<and>
         a = str_rel (drop (length base) root @ d # p) \<and> read_ok zp (root @ d # p) c c')))"
proof (induction zp base root n zf and zp base root es zf rule: os_walk_walk_dirs.induct)
  case (1 zpath base root c zf)
  then show ?case by simp
next
  case (2 zpath base root es zf)
  define zf' where "zf' = snd (write_files zpath base root es zf)"
  have w: "write_files zpath base root es zf = (None, zf')"
    unfolding zf'_def using write_files_ok[OF 2(2)] .
  from 2(3) have d: "distinct (map fst es)" and wl: "wf_listing es" by simp_all
  from 2(4) w have "(a, c') \<in> set (snd (walk_dirs zpath base root es zf'))" by simp
  from 2(1)[OF w[symmetric] refl 2(2) wl this]
  consider "(a, c') \<in> set zf'"
    | x sub q c where "(x, Dir sub) \<in> set es" "\<not> startswith_dot x"
        "lookup (Dir sub) q = Some (File c)" "visible q"
        "a = str_rel (drop (length base) root @ x # q)" "read_ok zpath (root @ x # q) c c'"
    by blast
  then show ?case
  proof cases
    case 1
    from write_files_entries[OF 2(2) 1[unfolded zf'_def]]
    consider "(a, c') \<in> set zf"
      | f c where "(f, File c) \<in> set es" "\<not> startswith_dot f"
          "a = str_rel (drop (length base) root @ [f])" "read_ok zpath (root @ [f]) c c'"
      by blast
    then show ?thesis
    proof cases
      case 1
      then show ?thesis ..
    next
      case 2
      then have "lookup (Dir es) [f] = Some (File c)" "visible [f]"
        unfolding lookup_Dir_file_iff[OF d] by (auto simp: visible_def)
      with 2(3,4) show ?thesis by blast
    qed
  next
    case 2
    then have "lookup (Dir es) (x # q) = Some (File c)" "visible (x # q)"
      unfolding lookup_Dir_file_iff[OF d] by (auto simp: visible_def)
    with 2(5,6) show ?thesis by blast
  qed
next
  case (3 zpath base root zf)
  then show ?case by simp
next
  case (4 zpath base root d c es zf)
  from 4(3) have wl: "wf_listing es" by simp
  from 4(4) have "(a, c') \<in> set (snd (walk_dirs zpath base root es zf))" by simp
  from 4(1)[OF 4(2) wl this] show ?case
    unfolding ex_Cons_dirs by blast
next
  case (5 zpath base root d sub es zf)
  from 5(5) have wn: "wf_node (Dir sub)" and wl: "wf_listing es" by simp_all
  show ?case
  proof (cases "startswith_dot d")
    case True
    with 5(6) have "(a, c') \<in> set (snd (walk_dirs zpath base root es zf))" by simp
    from 5(1)[OF True 5(4) wl this] show ?thesis
      unfolding ex_Cons_dirs by blast
  next
    case False
    have p: "prefix base (root @ [d])" using 5(4) by simp
    define zf' where "zf' = snd (os_walk zpath base (root @ [d]) (Dir sub) zf)"
    have w: "os_walk zpath base (root @ [d]) (Dir sub) zf = (None, zf')"
      unfolding zf'_def using walk_ok(1)[OF p] .
    have dr: "drop (length base) (root @ [d]) = drop (length base) root @ [d]"
      using 5(4) by (auto simp: prefix_def)
    from 5(6) w False have "(a, c') \<in> set (snd (walk_dirs zpath base root es zf'))" by simp
    from 5(3)[OF False w[symmetric] refl 5(4) wl this]
    consider "(a, c') \<in> set zf'"
      | "\<exists>d sub. (d, Dir sub) \<in> set es \<and> (\<not> startswith_dot d \<and>
          (\<exists>p c. lookup (Dir sub) p = Some (File c) \<and> visible p \<and>
             a = str_rel (drop (length base) root @ d # p) \<and> read_ok zpath (root @ d # p) c c'))"
      by blast
    then show ?thesis
    proof cases
      case 1
      from 5(2)[OF False p wn 1[unfolded zf'_def]]
      have "(a, c') \<in> set zf \<or>
        (\<exists>p c. lookup (Dir sub) p = Some (File c) \<and> visible p \<and>
           a = str_rel (drop (length base) root @ d # p) \<and> read_ok zpath (root @ d # p) c c')"
        unfolding dr by auto
      with False show ?thesis unfolding ex_Cons_dirs by blast
    next
      case 2
      then show ?thesis unfolding ex_Cons_dirs by blast
    qed
  qed
qed

lemma archive_entry_contents:
  assumes wf: "wf_world w" and run: "package_skill zsize skill out w = (Inr r, w')"
  shows "\<exists>zf. archive_at (fs w') (archive_path w skill out) = Some zf \<and>
     (\<forall>a c'. (a, c') \<in> set zf \<longrightarrow>
        (\<exists>p. p \<noteq> [] \<and> visible p \<and> a = arcname (resolve (cwd w) skill) p \<and>
           is_file (fs w') (resolve (cwd w) skill @ p) \<and>
           (if resolve (cwd w) skill @ p = archive_path w skill out
            then \<exists>pre. c' = Zip False pre
            else stat_at (fs w') (resolve (cwd w) skill @ p) = Some (IsFile c'))))"
proof -
  let ?sp = "resolve (cwd w) skill" and ?a = "archive_path w skill out"
  from package_skill_success[OF run] obtain fs1 fs2 fs3 zf where
    m: "mkdir_parents (fs w) (resolve (cwd w) out) = Inr fs1"
    and o: "write_file fs1 ?a (Zip False []) = Inr fs2"
    and wk: "walk_skill fs2 ?a ?sp = (None, zf)"
    and c: "write_file fs2 ?a (Zip True zf) = Inr fs3"
    and f: "fs w' = fs3"
    by auto
  from wf have "wf_node (fs w)" by (simp add: wf_world_def)
  with m have "wf_node fs1"
    using wf_mkdir resolve_valid[OF wf_world_cwd[OF wf]] by blast
  with o have wf2: "wf_node fs2"
    using wf_write wf_world_archive_path[OF wf] by blast
  have at: "archive_at (fs w') ?a = Some zf"
    using lookup_write_same[OF c] by (simp add: archive_at_def f)
  have "\<exists>p. p \<noteq> [] \<and> visible p \<and> a = arcname ?sp p \<and> is_file (fs w') (?sp @ p) \<and>
           (if ?sp @ p = ?a then \<exists>pre. c' = Zip False pre
            else stat_at (fs w') (?sp @ p) = Some (IsFile c'))"
    if e: "(a, c') \<in> set zf" for a c'
  proof (cases "lookup fs2 ?sp")
    case None
    then have "zf = []" using wk by (simp add: walk_skill_def)
    with e show ?thesis by simp
  next
    case (Some tree)
    with wf2 have wt: "wf_node tree" using lookup_wf by blast
    have pre: "prefix (parent ?sp) ?sp" by (simp add: parent_def prefixeq_butlast)
    have zf: "zf = snd (os_walk ?a (parent ?sp) ?sp tree [])"
      using wk Some by (simp add: walk_skill_def)
    from walk_entries(1)[OF pre wt e[unfolded zf]] obtain p c where
      p: "lookup tree p = Some (File c)" "p \<noteq> []" "visible p"
        "a = str_rel (drop (length (parent ?sp)) ?sp @ p)" "read_ok ?a (?sp @ p) c c'"
      by auto
    from p(1) Some have l2: "lookup fs2 (?sp @ p) = Some (File c)"
      by (simp add: lookup_append)
    have st: "stat_at (fs w') (?sp @ p) =
        (if ?sp @ p = ?a then Some (IsFile (Zip True zf)) else Some (IsFile c))"
      unfolding f stat_write[OF c] using l2 by (simp add: stat_at_def)
    then have fl: "is_file (fs w') (?sp @ p)" by (auto simp: is_file_stat)
    have "if ?sp @ p = ?a then \<exists>pre. c' = Zip False pre
          else stat_at (fs w') (?sp @ p) = Some (IsFile c')"
      using p(5) st by (auto simp: read_ok_def split: content.splits bool.splits)
    with p(2,3,4) fl show ?thesis by (auto simp: arcname_eq)
  qed
  with at show ?thesis by blast
qed


text \<open>
  C9. When the resolved output directory is the source directory or a visible directory
  below it, and the archive's own name does not start with a dot, the archive of a run
  that returns has an entry named after the archive file itself, and what such an entry
  holds is the archive as it stood, still open, when the walk reached the file: the file
  is created when the archive is opened, before the walk lists its directory. In the
  example that follows the theorem no file was at the archive's path before the run.
\<close>

theorem archive_inside_source_lists_itself:
  assumes "wf_world w" and "package_skill zsize skill out w = (Inr r, w')"
    and "resolve (cwd w) out = resolve (cwd w) skill @ d" and "visible d"
    and "\<not> startswith_dot (path_name (resolve (cwd w) skill) @ ''.skill'')"
  shows "\<exists>es. archive_at (fs w')
            (resolve (cwd w) out @ [path_name (resolve (cwd w) skill) @ ''.skill'']) = Some es
     \<and> arcname (resolve (cwd w) skill) (d @ [path_name (resolve (cwd w) skill) @ ''.skill''])
         \<in> fst ` set es
     \<and> (\<forall>c. (arcname (resolve (cwd w) skill)
                (d @ [path_name (resolve (cwd w) skill) @ ''.skill'']), c) \<in> set es \<longrightarrow>
            (\<exists>pre. c = Zip False pre))"
proof -
  let ?sp = "resolve (cwd w) skill"
  let ?p = "d @ [path_name ?sp @ ''.skill'']"
  from archive_entry_names[OF assms(1,2)] obtain es where
    at: "archive_at (fs w') (archive_path w skill out) = Some es"
    and nm: "\<And>a. (a \<in> fst ` set es) =
        (\<exists>p. is_file (fs w') (?sp @ p) \<and> p \<noteq> [] \<and> visible p \<and> a = arcname ?sp p)"
    by blast
  have ap: "archive_path w skill out = ?sp @ ?p"
    by (simp add: archive_path_def assms(3))
  from at have fl: "is_file (fs w') (?sp @ ?p)"
    unfolding ap by (auto simp: archive_at_def is_file_def split: option.splits node.splits)
  moreover have "visible ?p" using assms(4,5) by (simp add: visible_def)
  ultimately have 1: "arcname ?sp ?p \<in> fst ` set es"
    unfolding nm by blast
  have wf': "wf_node (fs w')" by (rule package_skill_wf[OF assms(1,2)])
  have valid: "\<forall>x\<in>set (?sp @ p). valid_name x" if "is_file (fs w') (?sp @ p)" for p
    using that lookup_wf[OF wf', of "?sp @ p"]
    by (auto simp: is_file_def split: option.splits)
  have 2: "\<exists>pre. c = Zip False pre" if "(arcname ?sp ?p, c) \<in> set es" for c
  proof -
    from archive_entry_contents[OF assms(1,2)] obtain zf where
      zf: "archive_at (fs w') (archive_path w skill out) = Some zf"
      and ct: "\<And>a c'. (a, c') \<in> set zf \<Longrightarrow>
        \<exists>p. p \<noteq> [] \<and> visible p \<and> a = arcname ?sp p \<and> is_file (fs w') (?sp @ p) \<and>
           (if ?sp @ p = archive_path w skill out then \<exists>pre. c' = Zip False pre
            else stat_at (fs w') (?sp @ p) = Some (IsFile c'))"
      by blast
    from zf at have "zf = es" by simp
    with ct[of "arcname ?sp ?p" c] that obtain q where
      q: "q \<noteq> []" "arcname ?sp ?p = arcname ?sp q" "is_file (fs w') (?sp @ q)"
        "if ?sp @ q = archive_path w skill out then \<exists>pre. c = Zip False pre
         else stat_at (fs w') (?sp @ q) = Some (IsFile c)"
      by blast
    have "?p = q"
      by (rule arcname_inj[OF q(2) _ q(1) valid[OF fl] valid[OF q(3)]]) simp
    with q(4) ap show ?thesis by simp
  qed
  from at 1 2 show ?thesis unfolding archive_path_def by blast
qed

theorem archive_inside_source_lists_itself_witness:
  "wf_world hidden_world
   \<and> resolve (cwd hidden_world) ''pack/'' = resolve (cwd hidden_world) ''pack'' @ []
   \<and> \<not> startswith_dot ''pack.skill''
   \<and> stat_at (fs hidden_world) [''work'', ''pack'', ''pack.skill''] = None
   \<and> fst (package_skill sample_zsize ''pack'' ''pack/'' hidden_world) =
       Inr ''/work/pack/pack.skill''
   \<and> (\<exists>es. archive_at (fs (snd (package_skill sample_zsize ''pack'' ''pack/'' hidden_world)))
              [''work'', ''pack'', ''pack.skill''] = Some es
        \<and> ''pack/pack.skill'' \<in> fst ` set es)
   \<and> archive_at (fs (snd (package_skill sample_zsize ''pack'' ''pack/'' hidden_world)))
        [''work'', ''pack'', ''pack.skill''] =
      Some [(''pack/SKILL.md'', Data ''# pack''),
            (''pack/pack.skill'', Zip False [(''pack/SKILL.md'', Data ''# pack'')]),
            (''pack/docs/guide.md'', Data ''guide'')]"
proof -
  let ?run = "package_skill sample_zsize ''pack'' ''pack/'' hidden_world"
  have wf: "wf_world hidden_world"
    by code_simp
  have f: "fst ?run = Inr ''/work/pack/pack.skill''"
    by code_simp
  then have run: "?run = (Inr ''/work/pack/pack.skill'', snd ?run)"
    by (metis prod.collapse)
  have s: "resolve (cwd hidden_world) ''pack'' = [''work'', ''pack'']"
    and o: "resolve (cwd hidden_world) ''pack/'' = [''work'', ''pack'']"
    and n: "path_name [''work'', ''pack''] @ ''.skill'' = ''pack.skill''"
    and an: "arcname [''work'', ''pack''] [''pack.skill''] = ''pack/pack.skill''"
    and nd: "\<not> startswith_dot ''pack.skill''"
    and ab: "stat_at (fs hidden_world) [''work'', ''pack'', ''pack.skill''] = None"
    by code_simp+
  have full: "archive_at (fs (snd ?run)) [''work'', ''pack'', ''pack.skill''] =
      Some [(''pack/SKILL.md'', Data ''# pack''),
            (''pack/pack.skill'', Zip False [(''pack/SKILL.md'', Data ''# pack'')]),
            (''pack/docs/guide.md'', Data ''guide'')]"
    by code_simp
  have e: "resolve (cwd hidden_world) ''pack/'' = resolve (cwd hidden_world) ''pack'' @ []"
    unfolding s o by simp
  have v: "visible []" by code_simp
  have nd': "\<not> startswith_dot (path_name (resolve (cwd hidden_world) ''pack'') @ ''.skill'')"
    unfolding s n by (rule nd)
  note t = archive_inside_source_lists_itself[OF wf run e v nd',
      unfolded s o n append_Cons append_Nil an]
  from t obtain es where es:
    "archive_at (fs (snd ?run)) [''work'', ''pack'', ''pack.skill''] = Some es
     \<and> ''pack/pack.skill'' \<in> fst ` set es
     \<and> (\<forall>c. (''pack/pack.skill'', c) \<in> set es \<longrightarrow> (\<exists>pre. c = Zip False pre))" ..
  from es[THEN conjunct1] es[THEN conjunct2, THEN conjunct1]
  have "\<exists>es. archive_at (fs (snd ?run)) [''work'', ''pack'', ''pack.skill''] = Some es
        \<and> ''pack/pack.skill'' \<in> fst ` set es"
    by (intro exI[of _ es] conjI)
  with wf e nd ab f full show ?thesis by (intro conjI)
qed

section \<open>The end-to-end example\<close>













end
